theory Spec2Isabelle
  imports Complex_Main "HOL-Library.Sublist" "HOL-Library.Multiset"
begin

section \<open>JavaScript numbers\<close>

text \<open>
  The solvers compute with JavaScript numbers.  The model keeps the finite values exact
  (any ordered ring: \<open>int\<close>, \<open>rat\<close>, \<open>real\<close>) and adds the two special values the code
  meets: \<open>Infinity\<close> (the padding sentinel, the initial distance) and \<open>NaN\<close>, which also
  stands for \<open>undefined\<close> wherever \<open>undefined\<close> is used as a number (a read past the end of
  a row, a missing key): \<open>isFinite\<close>, \<open>=== 0\<close>, \<open>+\<close>, \<open>-\<close>, \<open><\<close> and \<open>Math.min\<close> treat both alike.
  Rounding of floating-point arithmetic is not modelled.
\<close>

datatype 'a num = Fin 'a | Inf | NaN

fun isFinite :: "'a num \<Rightarrow> bool" where
  "isFinite (Fin x) = True"
| "isFinite Inf = False"
| "isFinite NaN = False"

text \<open>\<open>a + b\<close> (no negative infinity occurs, so the sum of two infinities is \<open>Infinity\<close>).\<close>

fun num_plus :: "'a::plus num \<Rightarrow> 'a num \<Rightarrow> 'a num" where
  "num_plus (Fin x) (Fin y) = Fin (x + y)"
| "num_plus NaN b = NaN"
| "num_plus a NaN = NaN"
| "num_plus Inf b = Inf"
| "num_plus a Inf = Inf"

text \<open>\<open>a - v\<close> for a finite \<open>v\<close>.\<close>

fun num_minus :: "'a::minus num \<Rightarrow> 'a \<Rightarrow> 'a num" where
  "num_minus (Fin x) v = Fin (x - v)"
| "num_minus Inf v = Inf"
| "num_minus NaN v = NaN"

text \<open>\<open>Math.min(a, b)\<close>: \<open>NaN\<close> if either argument is.\<close>

fun num_min :: "'a::ord num \<Rightarrow> 'a num \<Rightarrow> 'a num" where
  "num_min (Fin x) (Fin y) = Fin (min x y)"
| "num_min NaN b = NaN"
| "num_min a NaN = NaN"
| "num_min Inf b = b"
| "num_min a Inf = a"

text \<open>\<open>a < b\<close>: false as soon as one side is \<open>NaN\<close>.\<close>

fun num_less :: "'a::ord num \<Rightarrow> 'a num \<Rightarrow> bool" where
  "num_less (Fin x) (Fin y) = (x < y)"
| "num_less (Fin x) Inf = True"
| "num_less a b = False"

text \<open>\<open>Math.min(...xs.filter(isFinite))\<close>: \<open>Infinity\<close> for no argument.\<close>

definition finite_vals :: "'a num list \<Rightarrow> 'a list" where
  "finite_vals xs = concat (map (\<lambda>c. case c of Fin x \<Rightarrow> [x] | _ \<Rightarrow> []) xs)"

definition math_min :: "'a::ord list \<Rightarrow> 'a num" where
  "math_min xs = (case xs of [] \<Rightarrow> Inf | x # r \<Rightarrow> Fin (fold min r x))"

text \<open>\<open>xs.indexOf(v)\<close>, with \<open>None\<close> for \<open>-1\<close>.\<close>

fun indexOf :: "'a list \<Rightarrow> 'a \<Rightarrow> nat option" where
  "indexOf [] v = None"
| "indexOf (x # xs) v = (if x = v then Some 0 else map_option Suc (indexOf xs v))"

section \<open>The assignment solver (hungarian.ts)\<close>

type_synonym cell = "nat \<times> nat"

record assignment =
  driver :: nat
  passenger :: nat

record 'a HungarianOutput =
  assignments :: "assignment list"
  totalCost :: "'a num"

text \<open>
  What the loop can do besides reaching step 0.  \<open>PathStartNull\<close> is the \<open>TypeError\<close> of
  reading \<open>start.row\<close> in step 3 when \<open>pathStart\<close> is still \<open>null\<close>.  \<open>NoPrimeInRow\<close> marks the
  point where \<open>findPrimeInRow\<close> answers \<open>-1\<close> inside \<open>findAugmentingPath\<close>: the source goes on
  with column \<open>-1\<close> (a non-index property of the row arrays), which the model does not follow.
\<close>

datatype herror = PathStartNull | NoPrimeInRow

text \<open>\<open>costMatrix[0]?.length || 0\<close>\<close>

definition ncols :: "'a list list \<Rightarrow> nat" where
  "ncols costMatrix = (case costMatrix of [] \<Rightarrow> 0 | r # _ \<Rightarrow> length r)"

text \<open>\<open>costMatrix[i][j]\<close> for an existing row \<open>i\<close>; past the end of the row it is \<open>undefined\<close>.\<close>

definition entry :: "'a list list \<Rightarrow> nat \<Rightarrow> nat \<Rightarrow> 'a num" where
  "entry costMatrix i j =
     (if j < length (costMatrix ! i) then Fin (costMatrix ! i ! j) else NaN)"

text \<open>Lines 17-25: the \<open>n \<times> n\<close> matrix of \<open>Infinity\<close> with the input copied into its corner.\<close>

definition pad :: "'a list list \<Rightarrow> 'a num list list" where
  "pad costMatrix =
     (let n = max (length costMatrix) (ncols costMatrix) in
      [[if i < length costMatrix \<and> j < ncols costMatrix then entry costMatrix i j else Inf.
          j \<leftarrow> [0..<n]]. i \<leftarrow> [0..<n]])"

text \<open>\<open>if (isFinite(c)) c -= v\<close>\<close>

definition sub_finite :: "'a::minus \<Rightarrow> 'a num \<Rightarrow> 'a num" where
  "sub_finite v c = (if isFinite c then num_minus c v else c)"

text \<open>Step 1 (lines 28-35), one row: subtract the least finite entry from the finite entries.\<close>

definition reduce_row :: "'a::{ord,minus} num list \<Rightarrow> 'a num list" where
  "reduce_row row =
     (case math_min (finite_vals row) of
        Fin v \<Rightarrow> map (sub_finite v) row
      | _ \<Rightarrow> row)"

definition subtract_row_minima :: "'a::{ord,minus} num list list \<Rightarrow> 'a num list list" where
  "subtract_row_minima matrix = map reduce_row matrix"

text \<open>Step 2 (lines 38-46), one column \<open>j\<close>.\<close>

definition reduce_col :: "nat \<Rightarrow> 'a::{ord,minus} num list list \<Rightarrow> 'a num list list" where
  "reduce_col j matrix =
     (case math_min (finite_vals (map (\<lambda>row. row ! j) matrix)) of
        Fin v \<Rightarrow> map (\<lambda>row. row[j := sub_finite v (row ! j)]) matrix
      | _ \<Rightarrow> matrix)"

definition subtract_col_minima :: "'a::{ord,minus} num list list \<Rightarrow> 'a num list list" where
  "subtract_col_minima matrix = fold reduce_col [0..<length matrix] matrix"

text \<open>The index pairs of a nested \<open>for i\<close>, \<open>for j\<close> loop, in the order the loop visits them.\<close>

definition cells :: "nat \<Rightarrow> nat \<Rightarrow> cell list" where
  "cells m n = concat (map (\<lambda>i. map (\<lambda>j. (i, j)) [0..<n]) [0..<m])"

text \<open>Lines 54-62: greedy initial starring; the state is (masks, rowCover, colCover).\<close>

definition star_cell ::
  "'a::zero num list list \<Rightarrow> cell \<Rightarrow> nat list list \<times> bool list \<times> bool list
     \<Rightarrow> nat list list \<times> bool list \<times> bool list" where
  "star_cell matrix c st =
     (case (c, st) of ((i, j), (masks, rowCover, colCover)) \<Rightarrow>
        if matrix ! i ! j = Fin 0 \<and> \<not> rowCover ! i \<and> \<not> colCover ! j
        then (masks[i := (masks ! i)[j := 1]], rowCover[i := True], colCover[j := True])
        else (masks, rowCover, colCover))"

definition initial_stars :: "'a::zero num list list \<Rightarrow> nat list list" where
  "initial_stars matrix =
     (let n = length matrix in
      fst (fold (star_cell matrix) (cells n n)
             (replicate n (replicate n 0), replicate n False, replicate n False)))"

record 'a hstate =
  matrix :: "'a num list list"
  masks :: "nat list list"
  rowCover :: "bool list"
  colCover :: "bool list"
  pathStart :: "cell option"
  step :: nat

definition findUncoveredZero ::
  "'a::zero num list list \<Rightarrow> bool list \<Rightarrow> bool list \<Rightarrow> cell option" where
  "findUncoveredZero mat rc cc =
     List.find (\<lambda>(i, j). \<not> rc ! i \<and> mat ! i ! j = Fin 0 \<and> \<not> cc ! j)
       (concat (map (\<lambda>i. map (\<lambda>j. (i, j)) [0..<length (mat ! i)]) [0..<length mat]))"

definition findStarInRow :: "nat list list \<Rightarrow> nat \<Rightarrow> nat option" where
  "findStarInRow ms row = indexOf (ms ! row) 1"

definition findStarInCol :: "nat list list \<Rightarrow> nat \<Rightarrow> nat option" where
  "findStarInCol ms col = indexOf (map (\<lambda>r. r ! col) ms) 1"

definition findPrimeInRow :: "nat list list \<Rightarrow> nat \<Rightarrow> nat option" where
  "findPrimeInRow ms row = indexOf (ms ! row) 2"

text \<open>
  The \<open>while (true)\<close> loop of \<open>findAugmentingPath\<close>; \<open>None\<close> is the loop that never ends.
  \<open>currentRow\<close> is written but never read, so it is not part of the loop state.
\<close>

partial_function (option) augmentLoop ::
  "nat list list \<Rightarrow> nat \<Rightarrow> cell list \<Rightarrow> (herror + cell list) option" where
  "augmentLoop ms currentCol path =
     (case findStarInCol ms currentCol of
        None \<Rightarrow> Some (Inr path)
      | Some starRow \<Rightarrow>
          (case findPrimeInRow ms starRow of
             None \<Rightarrow> Some (Inl NoPrimeInRow)
           | Some primeCol \<Rightarrow>
               augmentLoop ms primeCol (path @ [(starRow, currentCol), (starRow, primeCol)])))"

declare augmentLoop.simps [code]

definition findAugmentingPath :: "nat list list \<Rightarrow> cell \<Rightarrow> (herror + cell list) option" where
  "findAugmentingPath ms start = augmentLoop ms (snd start) [start]"

definition findMinUncoveredValue ::
  "'a::ord num list list \<Rightarrow> bool list \<Rightarrow> bool list \<Rightarrow> 'a num" where
  "findMinUncoveredValue mat rc cc =
     fold (\<lambda>(i, j) minVal. if \<not> rc ! i \<and> \<not> cc ! j then num_min minVal (mat ! i ! j) else minVal)
       (concat (map (\<lambda>i. map (\<lambda>j. (i, j)) [0..<length (mat ! i)]) [0..<length mat]))
       Inf"

text \<open>Line 101, for one cell of the path.\<close>

definition flip_cell :: "cell \<Rightarrow> nat list list \<Rightarrow> nat list list" where
  "flip_cell c ms =
     (case c of (row, col) \<Rightarrow> ms[row := (ms ! row)[col := (if ms ! row ! col = 1 then 0 else 1)]])"

text \<open>Lines 120-125 for one cell.\<close>

definition adjust_cell :: "bool \<Rightarrow> bool \<Rightarrow> 'a::{plus,minus} \<Rightarrow> 'a num \<Rightarrow> 'a num" where
  "adjust_cell rowCovered colCovered minVal c =
     (let c1 = (if rowCovered then num_plus c (Fin minVal) else c)
      in if \<not> colCovered then num_minus c1 minVal else c1)"

text \<open>
  One turn of the \<open>switch\<close> (lines 68-128).  A step number without a \<open>case\<close> leaves the
  state as it is, so the \<open>while\<close> loop spins: \<open>None\<close>.
\<close>

definition hstep :: "'a::{zero,ord,plus,minus} hstate \<Rightarrow> (herror + 'a hstate) option" where
  "hstep s =
     (let n = length (matrix s) in
      if step s = 1 then
        (let cc = map (\<lambda>j. list_ex (\<lambda>r. r ! j = 1) (masks s)) [0..<n];
             coveredCount = length (filter (\<lambda>c. c) cc)
         in Some (Inr (s\<lparr>colCover := cc, step := (if coveredCount = n then 0 else 2)\<rparr>)))
      else if step s = 2 then
        (case findUncoveredZero (matrix s) (rowCover s) (colCover s) of
           None \<Rightarrow> Some (Inr (s\<lparr>step := 6\<rparr>))
         | Some (zr, zc) \<Rightarrow>
             (let ms = (masks s)[zr := (masks s ! zr)[zc := 2]] in
              case findStarInRow ms zr of
                Some starCol \<Rightarrow>
                  Some (Inr (s\<lparr>masks := ms, rowCover := (rowCover s)[zr := True],
                                colCover := (colCover s)[starCol := False], step := 2\<rparr>))
              | None \<Rightarrow>
                  Some (Inr (s\<lparr>masks := ms, pathStart := Some (zr, zc), step := 3\<rparr>))))
      else if step s = 3 then
        (case pathStart s of
           None \<Rightarrow> Some (Inl PathStartNull)
         | Some start \<Rightarrow>
             (case findAugmentingPath (masks s) start of
                None \<Rightarrow> None
              | Some (Inl e) \<Rightarrow> Some (Inl e)
              | Some (Inr path) \<Rightarrow>
                  Some (Inr (s\<lparr>masks := map (map (\<lambda>m. if m = 2 then 0 else m))
                                          (fold flip_cell path (masks s)),
                                rowCover := replicate n False,
                                colCover := replicate n False,
                                step := 1\<rparr>))))
      else if step s = 6 then
        (case findMinUncoveredValue (matrix s) (rowCover s) (colCover s) of
           Fin minVal \<Rightarrow>
             Some (Inr (s\<lparr>matrix :=
                            map (\<lambda>i. map (\<lambda>j. adjust_cell (rowCover s ! i) (colCover s ! j) minVal
                                                 (matrix s ! i ! j)) [0..<n]) [0..<n],
                          step := 2\<rparr>))
         | _ \<Rightarrow> Some (Inr (s\<lparr>step := 0\<rparr>)))
      else None)"

text \<open>\<open>while (step !== 0)\<close>\<close>

partial_function (option) hloop ::
  "'a::{zero,ord,plus,minus} hstate \<Rightarrow> (herror + 'a hstate) option" where
  "hloop s =
     (if step s = 0 then Some (Inr s)
      else Option.bind (hstep s) (\<lambda>r. case r of Inl e \<Rightarrow> Some (Inl e) | Inr s' \<Rightarrow> hloop s'))"

declare hloop.simps [code]

text \<open>The state on entry to the loop (line 66).\<close>

definition hinit :: "'a::{zero,ord,plus,minus} list list \<Rightarrow> 'a hstate" where
  "hinit costMatrix =
     (let mat = subtract_col_minima (subtract_row_minima (pad costMatrix));
          n = length mat
      in \<lparr>matrix = mat, masks = initial_stars mat,
          rowCover = replicate n False, colCover = replicate n False,
          pathStart = None, step = 1\<rparr>)"

text \<open>Lines 131-140: the starred cells inside the original bounds, row by row.\<close>

definition collect_assignments :: "'a::{zero,plus} list list \<Rightarrow> nat list list \<Rightarrow> 'a HungarianOutput" where
  "collect_assignments costMatrix ms =
     fold (\<lambda>(i, j) out.
             if ms ! i ! j = 1
             then \<lparr>assignments = assignments out @ [\<lparr>driver = i, passenger = j\<rparr>],
                   totalCost = num_plus (totalCost out) (entry costMatrix i j)\<rparr>
             else out)
       (cells (length costMatrix) (ncols costMatrix))
       \<lparr>assignments = [], totalCost = Fin 0\<rparr>"

definition hungarian ::
  "'a::{zero,ord,plus,minus} list list \<Rightarrow> (herror + 'a HungarianOutput) option" where
  "hungarian costMatrix =
     (case hloop (hinit costMatrix) of
        None \<Rightarrow> None
      | Some (Inl e) \<Rightarrow> Some (Inl e)
      | Some (Inr s) \<Rightarrow> Some (Inr (collect_assignments costMatrix (masks s))))"

section \<open>Distances and the cost matrix\<close>

record Node =
  node_id :: string
  lat :: real
  lng :: real

datatype metric = Euclidean | Haversine

text \<open>\<open>Math.atan2(y, x)\<close> on finite arguments.\<close>

definition atan2 :: "real \<Rightarrow> real \<Rightarrow> real" where
  "atan2 y x =
     (if 0 < x then arctan (y / x)
      else if x < 0 then (if 0 \<le> y then arctan (y / x) + pi else arctan (y / x) - pi)
      else if 0 < y then pi / 2
      else if y < 0 then - (pi / 2)
      else 0)"

definition haversineDistance :: "real \<Rightarrow> real \<Rightarrow> real \<Rightarrow> real \<Rightarrow> real" where
  "haversineDistance lat1 lng1 lat2 lng2 =
     (let R = 6371;
          dLat = (lat2 - lat1) * (pi / 180);
          dLng = (lng2 - lng1) * (pi / 180);
          a = sin (dLat / 2) * sin (dLat / 2) +
              cos (lat1 * (pi / 180)) * cos (lat2 * (pi / 180)) *
              sin (dLng / 2) * sin (dLng / 2);
          c = 2 * atan2 (sqrt a) (sqrt (1 - a))
      in R * c)"

definition euclideanDistance :: "real \<Rightarrow> real \<Rightarrow> real \<Rightarrow> real \<Rightarrow> real" where
  "euclideanDistance lat1 lng1 lat2 lng2 =
     (let deltaLat = lat2 - lat1; deltaLng = lng2 - lng1
      in sqrt (deltaLat * deltaLat + deltaLng * deltaLng))"

record BuildCostMatrixOptions =
  distMethod :: "metric option"
  timePerKm :: "real option"

record Pair =
  driverId :: string
  passengerId :: string
  cost :: real

definition distanceFunc :: "metric \<Rightarrow> real \<Rightarrow> real \<Rightarrow> real \<Rightarrow> real \<Rightarrow> real" where
  "distanceFunc m = (if m = Haversine then haversineDistance else euclideanDistance)"

text \<open>
  \<open>buildCostMatrix\<close>: the two nested \<open>forEach\<close> push one row per driver and one pair per
  cell, row by row.  An absent option takes its default (\<open>euclidean\<close>, 2).
\<close>

definition buildCostMatrix ::
  "Node list \<Rightarrow> Node list \<Rightarrow> BuildCostMatrixOptions \<Rightarrow> real list list \<times> Pair list" where
  "buildCostMatrix drivers passengers options =
     (let m = (case distMethod options of None \<Rightarrow> Euclidean | Some x \<Rightarrow> x);
          t = (case timePerKm options of None \<Rightarrow> 2 | Some x \<Rightarrow> x);
          cost_of = (\<lambda>d p. distanceFunc m (lat d) (lng d) (lat p) (lng p) * t)
      in (map (\<lambda>d. map (\<lambda>p. cost_of d p) passengers) drivers,
          concat (map (\<lambda>d. map (\<lambda>p. \<lparr>driverId = node_id d, passengerId = node_id p,
                                          cost = cost_of d p\<rparr>) passengers) drivers)))"

definition sumNaiveAssignments :: "Node list \<Rightarrow> Node list \<Rightarrow> metric \<Rightarrow> real" where
  "sumNaiveAssignments drivers passengers m =
     (let assignmentCount = min (length drivers) (length passengers)
      in fold (\<lambda>i total.
                 total + distanceFunc m (lat (drivers ! i)) (lng (drivers ! i))
                           (lat (passengers ! i)) (lng (passengers ! i)) * 2)
           [0..<assignmentCount] 0)"

section \<open>Shortest paths (dijkstra.ts)\<close>

record 'a AdjEdge =
  neighborId :: string
  adjWeight :: 'a

text \<open>
  The graph object is an association list of its own keys; \<open>graph[k]\<close> is \<open>map_of g k\<close> and
  \<open>for (k in graph)\<close> runs over \<open>map fst g\<close>.  The result objects are maps; a predecessor is
  \<open>Some None\<close> for \<open>null\<close>.  Node ids that name a property of \<open>Object.prototype\<close> are not
  modelled.
\<close>

type_synonym 'a Graph = "(string \<times> 'a AdjEdge list) list"

record 'a dstate =
  distances :: "string \<rightharpoonup> 'a num"
  predecessors :: "string \<rightharpoonup> string option"
  visited :: "string set"
  priorityQueue :: "(string \<times> 'a) list"

text \<open>\<open>distances[k]\<close> used as a number.\<close>

definition dist_of :: "(string \<rightharpoonup> 'a num) \<Rightarrow> string \<Rightarrow> 'a num" where
  "dist_of d k = (case d k of None \<Rightarrow> NaN | Some x \<Rightarrow> x)"

text \<open>
  The body of the inner \<open>for\<close> loop.  The comparison can only succeed for a finite
  \<open>newDistance\<close>, so the queue holds finite distances.
\<close>

definition relax :: "string \<Rightarrow> 'a::{plus,ord} AdjEdge \<Rightarrow> 'a dstate \<Rightarrow> 'a dstate" where
  "relax currentNodeId e st =
     (case num_plus (dist_of (distances st) currentNodeId) (Fin (adjWeight e)) of
        Fin newDistance \<Rightarrow>
          if num_less (Fin newDistance) (dist_of (distances st) (neighborId e))
          then st\<lparr>distances := (distances st)(neighborId e \<mapsto> Fin newDistance),
                  predecessors := (predecessors st)(neighborId e \<mapsto> Some currentNodeId),
                  priorityQueue := priorityQueue st @ [(neighborId e, newDistance)]\<rparr>
          else st
      | _ \<Rightarrow> st)"

definition unvisited_work :: "'a Graph \<Rightarrow> string set \<Rightarrow> nat" where
  "unvisited_work g vis = sum_list (map (\<lambda>(k, es). if k \<in> vis then 0 else Suc (length es)) g)"

text \<open>The \<open>while (priorityQueue.length > 0)\<close> loop: sort (stable), shift, visit.\<close>

function dijkstra_loop :: "'a::{plus,linorder} Graph \<Rightarrow> 'a dstate \<Rightarrow> 'a dstate" where
  "dijkstra_loop g st =
     (case sort_key snd (priorityQueue st) of
        [] \<Rightarrow> st
      | (currentNodeId, d) # rest \<Rightarrow>
          if currentNodeId \<in> visited st
          then dijkstra_loop g (st\<lparr>priorityQueue := rest\<rparr>)
          else (case map_of g currentNodeId of
                  None \<Rightarrow> dijkstra_loop g
                            (st\<lparr>priorityQueue := rest, visited := insert currentNodeId (visited st)\<rparr>)
                | Some es \<Rightarrow> dijkstra_loop g
                    (fold (relax currentNodeId) es
                       (st\<lparr>priorityQueue := rest,
                           visited := insert currentNodeId (visited st)\<rparr>))))"
  by pat_completeness auto

lemma relax_visited [simp]: "visited (relax c e st) = visited st"
  by (simp add: relax_def split: num.splits)

lemma relax_queue_le: "length (priorityQueue (relax c e st)) \<le> Suc (length (priorityQueue st))"
  by (simp add: relax_def split: num.splits)

lemma fold_relax_visited [simp]: "visited (fold (relax c) es st) = visited st"
  by (induction es arbitrary: st) simp_all

lemma fold_relax_queue_le:
  "length (priorityQueue (fold (relax c) es st)) \<le> length es + length (priorityQueue st)"
proof (induction es arbitrary: st)
  case Nil
  show ?case by simp
next
  case (Cons e es)
  have "length (priorityQueue (fold (relax c) es (relax c e st)))
          \<le> length es + length (priorityQueue (relax c e st))"
    by (rule Cons.IH)
  also have "\<dots> \<le> length es + Suc (length (priorityQueue st))"
    using relax_queue_le [of c e st] by simp
  finally show ?case by simp
qed

lemma unvisited_work_insert_le: "unvisited_work g (insert k vis) \<le> unvisited_work g vis"
  unfolding unvisited_work_def
  by (induction g) (auto split: prod.splits)

lemma unvisited_work_insert_less:
  "map_of g k = Some es \<Longrightarrow> k \<notin> vis \<Longrightarrow>
     unvisited_work g (insert k vis) + Suc (length es) \<le> unvisited_work g vis"
proof (induction g)
  case Nil
  then show ?case by simp
next
  case (Cons a g)
  obtain k' es' where a: "a = (k', es')" by (cases a)
  show ?case
  proof (cases "k' = k")
    case True
    with Cons.prems a have "es' = es" by simp
    with True a Cons.prems unvisited_work_insert_le [of g k vis] show ?thesis
      by (simp add: unvisited_work_def)
  next
    case False
    with Cons a show ?thesis by (simp add: unvisited_work_def)
  qed
qed

lemma sort_key_length_Cons: "sort_key f xs = y # ys \<Longrightarrow> length xs = Suc (length ys)"
  by (metis length_Cons length_sort)

text \<open>
  The loop ends on every input: a visit removes one entry from the queue and adds at most
  one per outgoing edge, and each key of the graph is visited once.
\<close>

termination dijkstra_loop
proof (relation "measure (\<lambda>(g, st). length (priorityQueue st) + unvisited_work g (visited st))")
  show "wf (measure (\<lambda>(g, st). length (priorityQueue st) + unvisited_work g (visited st)))"
    by simp
next
  fix g :: "'a Graph" and st :: "'a dstate" and x21 x22 x y
  assume "sort_key snd (priorityQueue st) = x21 # x22" "(x, y) = x21" "x \<in> visited st"
  then show "((g, st\<lparr>priorityQueue := x22\<rparr>), g, st)
       \<in> measure (\<lambda>(g, st). length (priorityQueue st) + unvisited_work g (visited st))"
    by (simp add: sort_key_length_Cons [of snd "priorityQueue st" x21 x22])
next
  fix g :: "'a Graph" and st :: "'a dstate" and x21 x22 x y
  assume "sort_key snd (priorityQueue st) = x21 # x22" "(x, y) = x21" "x \<notin> visited st"
    "map_of g x = None"
  then show "((g, st\<lparr>priorityQueue := x22, visited := insert x (visited st)\<rparr>), g, st)
       \<in> measure (\<lambda>(g, st). length (priorityQueue st) + unvisited_work g (visited st))"
    using unvisited_work_insert_le [of g x "visited st"]
    by (simp add: sort_key_length_Cons [of snd "priorityQueue st" x21 x22])
next
  fix g :: "'a Graph" and st :: "'a dstate" and x21 x22 x y x2
  assume a: "sort_key snd (priorityQueue st) = x21 # x22" "(x, y) = x21" "x \<notin> visited st"
    "map_of g x = Some x2"
  have "length (priorityQueue (fold (relax x) x2
            (st\<lparr>priorityQueue := x22, visited := insert x (visited st)\<rparr>)))
      \<le> length x2 + length x22"
    using fold_relax_queue_le
      [of x x2 "st\<lparr>priorityQueue := x22, visited := insert x (visited st)\<rparr>"] by simp
  moreover have "unvisited_work g (insert x (visited st)) + Suc (length x2)
      \<le> unvisited_work g (visited st)"
    using a by (intro unvisited_work_insert_less) auto
  moreover have "length (priorityQueue st) = Suc (length x22)"
    using a by (simp add: sort_key_length_Cons [of snd "priorityQueue st" x21 x22])
  ultimately show "((g, fold (relax x) x2
           (st\<lparr>priorityQueue := x22, visited := insert x (visited st)\<rparr>)), g, st)
       \<in> measure (\<lambda>(g, st). length (priorityQueue st) + unvisited_work g (visited st))"
    by simp
qed

declare dijkstra_loop.simps [simp del]

text \<open>Lines 22-31: every key of the graph starts at \<open>Infinity\<close> and \<open>null\<close>; the source at 0.\<close>

definition dijkstra_init :: "'a::zero Graph \<Rightarrow> string \<Rightarrow> 'a dstate" where
  "dijkstra_init g startNode =
     (let st = fold (\<lambda>nodeId st. st\<lparr>distances := (distances st)(nodeId \<mapsto> Inf),
                                      predecessors := (predecessors st)(nodeId \<mapsto> None)\<rparr>)
                 (map fst g)
                 \<lparr>distances = Map.empty, predecessors = Map.empty, visited = {},
                  priorityQueue = []\<rparr>
      in st\<lparr>distances := (distances st)(startNode \<mapsto> Fin 0),
            priorityQueue := priorityQueue st @ [(startNode, 0)]\<rparr>)"

record 'a DijkstraOutput =
  out_distances :: "string \<rightharpoonup> 'a num"
  out_predecessors :: "string \<rightharpoonup> string option"

definition dijkstra :: "'a::{zero,plus,linorder} Graph \<Rightarrow> string \<Rightarrow> 'a DijkstraOutput" where
  "dijkstra g startNode =
     (let st = dijkstra_loop g (dijkstra_init g startNode)
      in \<lparr>out_distances = distances st, out_predecessors = predecessors st\<rparr>)"

section \<open>Minimum spanning forest (kruskal.ts)\<close>

text \<open>The fields \<open>u\<close>, \<open>v\<close> and \<open>weight\<close> of an edge.\<close>

record 'w Edge =
  edge_u :: string
  edge_v :: string
  weight :: 'w

text \<open>
  The two objects of \<open>UnionFind\<close> as maps (ids that name a property of \<open>Object.prototype\<close>
  are not modelled).  \<open>rank\<close> is only compared and incremented; a missing rank compares
  false both ways and stays missing when incremented, as \<open>undefined\<close> and \<open>NaN\<close> do.
\<close>

record UnionFind =
  parent :: "string \<rightharpoonup> string"
  rank :: "string \<rightharpoonup> nat"

definition uf_new :: "string list \<Rightarrow> UnionFind" where
  "uf_new nodes =
     fold (\<lambda>node s. s\<lparr>parent := (parent s)(node \<mapsto> node), rank := (rank s)(node \<mapsto> 0)\<rparr>)
       nodes \<lparr>parent = Map.empty, rank = Map.empty\<rparr>"

text \<open>\<open>find\<close>, with the object after the call; \<open>None\<close> is a recursion that never returns.\<close>

partial_function (option) uf_find :: "UnionFind \<Rightarrow> string \<Rightarrow> (string \<times> UnionFind) option" where
  "uf_find s nodeId =
     (let s1 = (if parent s nodeId = None
                then s\<lparr>parent := (parent s)(nodeId \<mapsto> nodeId), rank := (rank s)(nodeId \<mapsto> 0)\<rparr>
                else s)
      in if parent s1 nodeId = Some nodeId then Some (nodeId, s1)
         else Option.bind (uf_find s1 (the (parent s1 nodeId)))
                (\<lambda>(r, s2). Some (r, s2\<lparr>parent := (parent s2)(nodeId \<mapsto> r)\<rparr>)))"

declare uf_find.simps [code]

definition rank_gt :: "nat option \<Rightarrow> nat option \<Rightarrow> bool" where
  "rank_gt a b = (case (a, b) of (Some x, Some y) \<Rightarrow> y < x | _ \<Rightarrow> False)"

definition uf_union :: "UnionFind \<Rightarrow> string \<Rightarrow> string \<Rightarrow> (bool \<times> UnionFind) option" where
  "uf_union s nodeA nodeB =
     Option.bind (uf_find s nodeA) (\<lambda>(rootA, s1).
     Option.bind (uf_find s1 nodeB) (\<lambda>(rootB, s2).
       if rootA \<noteq> rootB then
         (if rank_gt (rank s2 rootA) (rank s2 rootB)
          then Some (True, s2\<lparr>parent := (parent s2)(rootB \<mapsto> rootA)\<rparr>)
          else if rank_gt (rank s2 rootB) (rank s2 rootA)
          then Some (True, s2\<lparr>parent := (parent s2)(rootA \<mapsto> rootB)\<rparr>)
          else Some (True, s2\<lparr>parent := (parent s2)(rootB \<mapsto> rootA),
                              rank := (case rank s2 rootA of
                                         Some r \<Rightarrow> (rank s2)(rootA \<mapsto> Suc r)
                                       | None \<Rightarrow> rank s2)\<rparr>))
       else Some (False, s2)))"

record 'w KruskalOutput =
  mstEdges :: "'w Edge list"
  totalWeight :: 'w

text \<open>
  The arrays the caller owns live in a heap, addressed by position, so that writing to an
  array is visible to everyone who holds its address.
\<close>

record 'w heap =
  strArrays :: "string list list"
  edgeArrays :: "'w Edge list list"

text \<open>\<open>[...a]\<close>: a new array with the elements of the array at \<open>a\<close>.\<close>

definition spread_copy :: "'w heap \<Rightarrow> nat \<Rightarrow> nat \<times> 'w heap" where
  "spread_copy h a = (length (edgeArrays h), h\<lparr>edgeArrays := edgeArrays h @ [edgeArrays h ! a]\<rparr>)"

text \<open>\<open>a.sort((x, y) => x.weight - y.weight)\<close>: sorts the array at \<open>a\<close> in place (stable).\<close>

definition sort_in_place :: "'w::linorder heap \<Rightarrow> nat \<Rightarrow> 'w heap" where
  "sort_in_place h a = h\<lparr>edgeArrays := (edgeArrays h)[a := sort_key weight (edgeArrays h ! a)]\<rparr>"

text \<open>The \<open>for (const edge of sortedEdges)\<close> loop; the state is (unionFind, mstEdges, totalWeight).\<close>

fun kruskal_loop ::
  "'w::plus Edge list \<Rightarrow> UnionFind \<times> 'w Edge list \<times> 'w \<Rightarrow> (UnionFind \<times> 'w Edge list \<times> 'w) option" where
  "kruskal_loop [] st = Some st"
| "kruskal_loop (e # es) (unionFind, mst, tw) =
     (case uf_union unionFind (edge_u e) (edge_v e) of
        None \<Rightarrow> None
      | Some (joined, unionFind') \<Rightarrow>
          kruskal_loop es (if joined then (unionFind', mst @ [e], tw + weight e)
                           else (unionFind', mst, tw)))"

text \<open>\<open>kruskal\<close> on the arrays at addresses \<open>nodes\<close> and \<open>edges\<close>; returns the heap it leaves.\<close>

definition kruskal ::
  "'w::{linorder,zero,plus} heap \<Rightarrow> nat \<Rightarrow> nat \<Rightarrow> ('w KruskalOutput \<times> 'w heap) option" where
  "kruskal h nodes edges =
     (let (sortedEdges, h1) = spread_copy h edges;
          h2 = sort_in_place h1 sortedEdges;
          unionFind = uf_new (strArrays h2 ! nodes)
      in case kruskal_loop (edgeArrays h2 ! sortedEdges) (unionFind, [], 0) of
           None \<Rightarrow> None
         | Some (uf', mst, tw) \<Rightarrow> Some (\<lparr>mstEdges = mst, totalWeight = tw\<rparr>, h2))"

text \<open>A call on two fresh arrays holding \<open>nodes\<close> and \<open>edges\<close>.\<close>

definition kruskal_on :: "string list \<Rightarrow> 'w::{linorder,zero,plus} Edge list \<Rightarrow> 'w KruskalOutput option" where
  "kruskal_on nodes edges =
     map_option fst (kruskal \<lparr>strArrays = [nodes], edgeArrays = [edges]\<rparr> 0 0)"

section \<open>Shortest paths: which ids receive a distance\<close>

lemma num_less_NaN [simp]: "num_less a NaN = False"
  by (cases a) simp_all








text \<open>
  C4.  The single-hop example of the specification, run on the code: for the graph
  \<open>{A: [{B, 5}]}\<close> and source \<open>A\<close> the result is \<open>distances = {A: 0}\<close> and
  \<open>predecessors = {A: null}\<close>.  \<open>B\<close> is reachable at distance 5 but is not a key of the
  graph, so \<open>distances[B]\<close> is \<open>undefined\<close>, the test \<open>5 < undefined\<close> fails and \<open>B\<close> is
  never given a distance or a predecessor.
\<close>

theorem dijkstra_single_hop:
  "dijkstra [(''A'', [\<lparr>neighborId = ''B'', adjWeight = 5 :: int\<rparr>])] ''A'' =
     \<lparr>out_distances = [''A'' \<mapsto> Fin 0], out_predecessors = [''A'' \<mapsto> None]\<rparr>"
  by (simp add: dijkstra_def dijkstra_init_def dijkstra_loop.simps relax_def dist_of_def)

section \<open>The assignment solver on rectangular matrices\<close>

text \<open>
  C1.  The solver run on the \<open>1 \<times> 2\<close> matrix \<open>[[2, 1]]\<close>: the row minimum and then the
  column minima are subtracted, which turns both cells into zeros; the first one is
  starred, and the result is the assignment (0, 0) of cost 2, although the assignment
  (0, 1) costs 1.
\<close>

theorem hungarian_rectangular_not_minimal:
  "hungarian [[2, 1 :: int]] =
     Some (Inr \<lparr>assignments = [\<lparr>driver = 0, passenger = 0\<rparr>], totalCost = Fin 2\<rparr>) \<and>
   [[2, 1 :: int]] ! 0 ! 1 < 2"
  by code_simp

lemma sqrt_9: "sqrt 9 = 3"
  by (rule real_sqrt_unique) simp_all

lemma hungarian_three_drivers:
  "hungarian [[0, 2], [0, 2], [6, 4 :: real]] =
     Some (Inr \<lparr>assignments = [\<lparr>driver = 0, passenger = 0\<rparr>, \<lparr>driver = 2, passenger = 1\<rparr>],
                totalCost = Fin 4\<rparr>)"
  by code_simp

text \<open>
  C7.  Three drivers at (0,0), (0,0), (3,0) and two passengers at (0,0), (1,0), Euclidean
  metric, cost factor 2: the cost matrix is \<open>[[0, 2], [0, 2], [6, 4]]\<close>.  The naive
  baseline pairs driver 0 with passenger 0 and driver 1 with passenger 1, total 2.  The
  solver returns the pairs (0, 0) and (2, 1), total 4.
\<close>

theorem naive_below_hungarian:
  "sumNaiveAssignments
     [\<lparr>node_id = ''d0'', lat = 0, lng = 0\<rparr>, \<lparr>node_id = ''d1'', lat = 0, lng = 0\<rparr>,
      \<lparr>node_id = ''d2'', lat = 3, lng = 0\<rparr>]
     [\<lparr>node_id = ''p0'', lat = 0, lng = 0\<rparr>, \<lparr>node_id = ''p1'', lat = 1, lng = 0\<rparr>] Euclidean = 2 \<and>
   hungarian (fst (buildCostMatrix
     [\<lparr>node_id = ''d0'', lat = 0, lng = 0\<rparr>, \<lparr>node_id = ''d1'', lat = 0, lng = 0\<rparr>,
      \<lparr>node_id = ''d2'', lat = 3, lng = 0\<rparr>]
     [\<lparr>node_id = ''p0'', lat = 0, lng = 0\<rparr>, \<lparr>node_id = ''p1'', lat = 1, lng = 0\<rparr>]
     \<lparr>distMethod = Some Euclidean, timePerKm = Some 2\<rparr>)) =
     Some (Inr \<lparr>assignments = [\<lparr>driver = 0, passenger = 0\<rparr>, \<lparr>driver = 2, passenger = 1\<rparr>],
                totalCost = Fin 4\<rparr>)"
proof -
  have "fst (buildCostMatrix
     [\<lparr>node_id = ''d0'', lat = 0, lng = 0\<rparr>, \<lparr>node_id = ''d1'', lat = 0, lng = 0\<rparr>,
      \<lparr>node_id = ''d2'', lat = 3, lng = 0\<rparr>]
     [\<lparr>node_id = ''p0'', lat = 0, lng = 0\<rparr>, \<lparr>node_id = ''p1'', lat = 1, lng = 0\<rparr>]
     \<lparr>distMethod = Some Euclidean, timePerKm = Some 2\<rparr>) = [[0, 2], [0, 2], [6, 4]]"
    by (simp add: buildCostMatrix_def distanceFunc_def euclideanDistance_def sqrt_9)
  moreover have "sumNaiveAssignments
     [\<lparr>node_id = ''d0'', lat = 0, lng = 0\<rparr>, \<lparr>node_id = ''d1'', lat = 0, lng = 0\<rparr>,
      \<lparr>node_id = ''d2'', lat = 3, lng = 0\<rparr>]
     [\<lparr>node_id = ''p0'', lat = 0, lng = 0\<rparr>, \<lparr>node_id = ''p1'', lat = 1, lng = 0\<rparr>] Euclidean = 2"
    by (simp add: sumNaiveAssignments_def distanceFunc_def euclideanDistance_def upt_rec [of 0])
  ultimately show ?thesis
    by (simp only: hungarian_three_drivers simp_thms)
qed

section \<open>The assignment solver: termination and feasibility\<close>

text \<open>
  The rest of this section shows that on a rectangular input the step machine always
  reaches step 0 and leaves exactly \<open>min m n\<close> stars, no two in a row or a column.  Only the
  positions of the finite and infinite cells and of the zeros matter for this; the values of
  the costs do not.
\<close>

subsection \<open>Lists and index loops\<close>

lemma indexOf_None_iff: "indexOf xs x = None \<longleftrightarrow> x \<notin> set xs"
  by (induction xs) auto

lemma indexOf_SomeD:
  "indexOf xs y = Some k \<Longrightarrow> k < length xs \<and> xs ! k = y \<and> (\<forall>k'<k. xs ! k' \<noteq> y)"
proof (induction xs arbitrary: k)
  case Nil
  then show ?case by simp
next
  case (Cons x xs)
  show ?case
  proof (cases "x = y")
    case True
    with Cons.prems show ?thesis by simp
  next
    case False
    with Cons.prems obtain k0 where k0: "indexOf xs y = Some k0" "k = Suc k0" by auto
    from Cons.IH [OF k0(1)] False k0(2) show ?thesis
      by (auto simp: nth_Cons split: nat.splits)
  qed
qed

lemma set_cells [simp]: "set (cells m n) = {(i, j). i < m \<and> j < n}"
  by (auto simp: cells_def)

lemma cells_Suc: "cells (Suc m) n = cells m n @ map (Pair m) [0..<n]"
  by (simp add: cells_def)

lemma distinct_cells: "distinct (cells m n)"
  by (induction m) (auto simp: cells_Suc distinct_map inj_on_def, simp add: cells_def)

definition shaped :: "nat \<Rightarrow> 'x list list \<Rightarrow> bool" where
  "shaped N X = (length X = N \<and> (\<forall>i<N. length (X ! i) = N))"

lemma shaped_cells:
  "shaped N X \<Longrightarrow>
     concat (map (\<lambda>i. map (\<lambda>j. (i, j)) [0..<length (X ! i)]) [0..<length X]) = cells N N"
  by (auto simp: shaped_def cells_def intro!: arg_cong [where f = concat])

lemma shaped_update:
  "shaped N X \<Longrightarrow> shaped N (X[i := (X ! i)[j := x]])"
  by (cases "i < length X") (auto simp: shaped_def nth_list_update)

lemma nth_update2:
  "shaped N X \<Longrightarrow> i < N \<Longrightarrow> j < N \<Longrightarrow> i' < N \<Longrightarrow> j' < N \<Longrightarrow>
     X[i := (X ! i)[j := x]] ! i' ! j' = (if i' = i \<and> j' = j then x else X ! i' ! j')"
  by (auto simp: shaped_def nth_list_update)

lemma findStarInRow_None:
  "shaped N ms \<Longrightarrow> i < N \<Longrightarrow> findStarInRow ms i = None \<longleftrightarrow> (\<forall>j<N. ms ! i ! j \<noteq> 1)"
  by (auto simp: findStarInRow_def indexOf_None_iff shaped_def in_set_conv_nth)

lemma findStarInRow_Some:
  "shaped N ms \<Longrightarrow> i < N \<Longrightarrow> findStarInRow ms i = Some j \<Longrightarrow> j < N \<and> ms ! i ! j = 1"
  using indexOf_SomeD [of "ms ! i" 1 j] by (auto simp: findStarInRow_def shaped_def)

lemma findPrimeInRow_None:
  "shaped N ms \<Longrightarrow> i < N \<Longrightarrow> findPrimeInRow ms i = None \<longleftrightarrow> (\<forall>j<N. ms ! i ! j \<noteq> 2)"
  by (auto simp: findPrimeInRow_def indexOf_None_iff shaped_def in_set_conv_nth)

lemma findPrimeInRow_Some:
  "shaped N ms \<Longrightarrow> i < N \<Longrightarrow> findPrimeInRow ms i = Some j \<Longrightarrow> j < N \<and> ms ! i ! j = 2"
  using indexOf_SomeD [of "ms ! i" 2 j] by (auto simp: findPrimeInRow_def shaped_def)

lemma findStarInCol_None:
  "shaped N ms \<Longrightarrow> j < N \<Longrightarrow> findStarInCol ms j = None \<longleftrightarrow> (\<forall>i<N. ms ! i ! j \<noteq> 1)"
  by (auto simp: findStarInCol_def indexOf_None_iff shaped_def in_set_conv_nth simp del: set_map)

lemma findStarInCol_Some:
  "shaped N ms \<Longrightarrow> j < N \<Longrightarrow> findStarInCol ms j = Some i \<Longrightarrow> i < N \<and> ms ! i ! j = 1"
  using indexOf_SomeD [of "map (\<lambda>r. r ! j) ms" 1 i] by (auto simp: findStarInCol_def shaped_def)

lemma findUncoveredZero_None:
  "shaped N M \<Longrightarrow> findUncoveredZero M rc cc = None \<longleftrightarrow>
     (\<forall>i<N. \<forall>j<N. \<not> (\<not> rc ! i \<and> M ! i ! j = Fin 0 \<and> \<not> cc ! j))"
  by (auto simp: findUncoveredZero_def shaped_cells find_None_iff)

lemma findUncoveredZero_Some:
  "shaped N M \<Longrightarrow> findUncoveredZero M rc cc = Some (i, j) \<Longrightarrow>
     i < N \<and> j < N \<and> \<not> rc ! i \<and> M ! i ! j = Fin 0 \<and> \<not> cc ! j"
  by (auto simp: findUncoveredZero_def shaped_cells find_Some_iff dest!: nth_mem)

text \<open>The least uncovered value, when no cell is \<open>NaN\<close>.\<close>

lemma fold_min_acc:
  fixes f :: "'c \<Rightarrow> 'a::linorder num"
  assumes "\<forall>c \<in> set cs. P c \<longrightarrow> f c \<noteq> NaN" and "acc \<noteq> NaN"
  shows "(case fold (\<lambda>c a. if P c then num_min a (f c) else a) cs acc of
            Fin w \<Rightarrow> (acc = Fin w \<or> (\<exists>c \<in> set cs. P c \<and> f c = Fin w)) 
          | Inf \<Rightarrow> acc = Inf \<and> (\<forall>c \<in> set cs. P c \<longrightarrow> f c = Inf)
          | NaN \<Rightarrow> False)"
  using assms
proof (induction cs arbitrary: acc)
  case Nil
  then show ?case by (cases acc) auto
next
  case (Cons c cs)
  let ?a = "if P c then num_min acc (f c) else acc"
  have a: "?a \<noteq> NaN" using Cons.prems by (cases acc; cases "f c") auto
  have "\<forall>c \<in> set cs. P c \<longrightarrow> f c \<noteq> NaN" using Cons.prems by auto
  from Cons.IH [OF this a] Cons.prems(2) show ?case
    by (cases acc; cases "f c") (auto simp: min_def split: num.splits if_splits)
qed

lemma findMinUncoveredValue_Fin:
  fixes M :: "'a::linorder num list list"
  assumes "shaped N M" and "\<forall>i<N. \<forall>j<N. M ! i ! j \<noteq> NaN"
    and "findMinUncoveredValue M rc cc = Fin w"
  shows "\<exists>i<N. \<exists>j<N. \<not> rc ! i \<and> \<not> cc ! j \<and> M ! i ! j = Fin w"
proof -
  have "\<forall>c \<in> set (cells N N). \<not> rc ! fst c \<and> \<not> cc ! snd c \<longrightarrow> M ! fst c ! snd c \<noteq> NaN"
    using assms(2) by auto
  from fold_min_acc [where P = "\<lambda>c. \<not> rc ! fst c \<and> \<not> cc ! snd c" and f = "\<lambda>c. M ! fst c ! snd c",
      OF this, of Inf] assms(1,3)
  show ?thesis
    by (auto simp: findMinUncoveredValue_def shaped_cells case_prod_unfold)
qed

lemma findMinUncoveredValue_not_Fin:
  fixes M :: "'a::linorder num list list"
  assumes "shaped N M" and "\<forall>i<N. \<forall>j<N. M ! i ! j \<noteq> NaN"
    and "\<not> isFinite (findMinUncoveredValue M rc cc)"
  shows "\<forall>i<N. \<forall>j<N. \<not> rc ! i \<and> \<not> cc ! j \<longrightarrow> M ! i ! j = Inf"
proof -
  have "\<forall>c \<in> set (cells N N). \<not> rc ! fst c \<and> \<not> cc ! snd c \<longrightarrow> M ! fst c ! snd c \<noteq> NaN"
    using assms(2) by auto
  from fold_min_acc [where P = "\<lambda>c. \<not> rc ! fst c \<and> \<not> cc ! snd c" and f = "\<lambda>c. M ! fst c ! snd c",
      OF this, of Inf] assms(1,3)
  show ?thesis
    by (auto simp: findMinUncoveredValue_def shaped_cells case_prod_unfold split: num.splits)
qed

definition rectangular :: "'a list list \<Rightarrow> bool" where
  "rectangular cm = (\<forall>row \<in> set cm. length row = ncols cm)"

text \<open>
  The padded matrix while the solver runs: finite inside the bounds of the input,
  \<open>Infinity\<close> outside.
\<close>

definition cells_ok :: "nat \<Rightarrow> nat \<Rightarrow> nat \<Rightarrow> 'a num list list \<Rightarrow> bool" where
  "cells_ok m c N M =
     (shaped N M \<and>
      (\<forall>i<N. \<forall>j<N. if i < m \<and> j < c then isFinite (M ! i ! j) else M ! i ! j = Inf))"

text \<open>
  The marks: every marked cell holds a zero, and no row and no column has two stars.
\<close>

definition marks_ok :: "nat \<Rightarrow> 'a::zero num list list \<Rightarrow> nat list list \<Rightarrow> bool" where
  "marks_ok N M ms =
     (shaped N ms \<and>
      (\<forall>i<N. \<forall>j<N. ms ! i ! j \<le> 2) \<and>
      (\<forall>i<N. \<forall>j<N. ms ! i ! j \<noteq> 0 \<longrightarrow> M ! i ! j = Fin 0) \<and>
      (\<forall>i<N. \<forall>j<N. \<forall>j'<N. ms ! i ! j = 1 \<and> ms ! i ! j' = 1 \<longrightarrow> j = j') \<and>
      (\<forall>i<N. \<forall>i'<N. \<forall>j<N. ms ! i ! j = 1 \<and> ms ! i' ! j = 1 \<longrightarrow> i = i'))"

lemma isFinite_iff: "isFinite x \<longleftrightarrow> (\<exists>a. x = Fin a)"
  by (cases x) auto

lemma cells_ok_shaped: "cells_ok m c N M \<Longrightarrow> shaped N M"
  by (simp add: cells_ok_def)

lemma cells_ok_fin:
  "cells_ok m c N M \<Longrightarrow> i < N \<Longrightarrow> j < N \<Longrightarrow> i < m \<Longrightarrow> j < c \<Longrightarrow> isFinite (M ! i ! j)"
  by (simp add: cells_ok_def)

lemma cells_ok_inf:
  "cells_ok m c N M \<Longrightarrow> i < N \<Longrightarrow> j < N \<Longrightarrow> \<not> (i < m \<and> j < c) \<Longrightarrow> M ! i ! j = Inf"
  unfolding cells_ok_def by metis

lemma cells_ok_kind:
  assumes "cells_ok m c N M" and "shaped N M'"
    and "\<And>i j. i < N \<Longrightarrow> j < N \<Longrightarrow> isFinite (M' ! i ! j) = isFinite (M ! i ! j)"
    and "\<And>i j. i < N \<Longrightarrow> j < N \<Longrightarrow> (M' ! i ! j = Inf) = (M ! i ! j = Inf)"
  shows "cells_ok m c N M'"
  unfolding cells_ok_def
proof (intro conjI allI impI)
  show "shaped N M'" by fact
next
  fix i j assume "i < N" "j < N"
  then show "if i < m \<and> j < c then isFinite (M' ! i ! j) else M' ! i ! j = Inf"
    using assms(3) [of i j] assms(4) [of i j] cells_ok_fin [OF assms(1), of i j]
      cells_ok_inf [OF assms(1), of i j]
    by (cases "i < m \<and> j < c") simp_all
qed

lemma cells_ok_not_NaN: "cells_ok m c N M \<Longrightarrow> i < N \<Longrightarrow> j < N \<Longrightarrow> M ! i ! j \<noteq> NaN"
  using cells_ok_fin [of m c N M i j] cells_ok_inf [of m c N M i j]
  by (cases "i < m \<and> j < c") (auto simp: isFinite_iff)

lemma marks_ok_shaped: "marks_ok N M ms \<Longrightarrow> shaped N ms"
  by (simp add: marks_ok_def)

lemma marks_ok_le2: "marks_ok N M ms \<Longrightarrow> i < N \<Longrightarrow> j < N \<Longrightarrow> ms ! i ! j \<le> 2"
  by (simp add: marks_ok_def)

lemma marks_ok_zero:
  "marks_ok N M ms \<Longrightarrow> i < N \<Longrightarrow> j < N \<Longrightarrow> ms ! i ! j \<noteq> 0 \<Longrightarrow> M ! i ! j = Fin 0"
  by (simp add: marks_ok_def)

lemma marks_ok_row:
  "marks_ok N M ms \<Longrightarrow> i < N \<Longrightarrow> j < N \<Longrightarrow> j' < N \<Longrightarrow> ms ! i ! j = 1 \<Longrightarrow> ms ! i ! j' = 1
     \<Longrightarrow> j = j'"
  by (simp add: marks_ok_def)

lemma marks_ok_col:
  "marks_ok N M ms \<Longrightarrow> i < N \<Longrightarrow> i' < N \<Longrightarrow> j < N \<Longrightarrow> ms ! i ! j = 1 \<Longrightarrow> ms ! i' ! j = 1
     \<Longrightarrow> i = i'"
  by (simp add: marks_ok_def)

lemma marks_okI:
  assumes "shaped N ms"
    and "\<And>i j. i < N \<Longrightarrow> j < N \<Longrightarrow> ms ! i ! j \<le> 2"
    and "\<And>i j. i < N \<Longrightarrow> j < N \<Longrightarrow> ms ! i ! j \<noteq> 0 \<Longrightarrow> M ! i ! j = Fin 0"
    and "\<And>i j j'. i < N \<Longrightarrow> j < N \<Longrightarrow> j' < N \<Longrightarrow> ms ! i ! j = 1 \<Longrightarrow> ms ! i ! j' = 1 \<Longrightarrow> j = j'"
    and "\<And>i i' j. i < N \<Longrightarrow> i' < N \<Longrightarrow> j < N \<Longrightarrow> ms ! i ! j = 1 \<Longrightarrow> ms ! i' ! j = 1 \<Longrightarrow> i = i'"
  shows "marks_ok N M ms"
  unfolding marks_ok_def using assms by simp

lemma ncols_rectangular: "rectangular cm \<Longrightarrow> i < length cm \<Longrightarrow> length (cm ! i) = ncols cm"
  by (simp add: rectangular_def)

lemma pad_ok:
  "rectangular cm \<Longrightarrow> cells_ok (length cm) (ncols cm) (max (length cm) (ncols cm)) (pad cm)"
  by (auto simp: cells_ok_def shaped_def pad_def Let_def entry_def ncols_rectangular)

lemma length_pad: "length (pad cm) = max (length cm) (ncols cm)"
  by (simp add: pad_def Let_def)

lemma sub_finite_kind [simp]:
  "isFinite (sub_finite a x) = isFinite x" "sub_finite a x = Inf \<longleftrightarrow> x = Inf"
  by (cases x; simp add: sub_finite_def)+

lemma length_reduce_row [simp]: "length (reduce_row r) = length r"
  by (simp add: reduce_row_def split: num.splits)

lemma reduce_row_kind:
  "j < length r \<Longrightarrow> isFinite (reduce_row r ! j) = isFinite (r ! j)"
  "j < length r \<Longrightarrow> (reduce_row r ! j = Inf) = (r ! j = Inf)"
  by (simp_all add: reduce_row_def split: num.splits)

lemma subtract_row_minima_ok:
  assumes "cells_ok m c N M"
  shows "cells_ok m c N (subtract_row_minima M)"
proof (rule cells_ok_kind [OF assms])
  have len: "length M = N" and row: "\<And>i. i < N \<Longrightarrow> length (M ! i) = N"
    using assms by (auto simp: cells_ok_def shaped_def)
  show "shaped N (subtract_row_minima M)"
    using len row by (simp add: shaped_def subtract_row_minima_def)
  fix i j assume "i < N" "j < N"
  then show "isFinite (subtract_row_minima M ! i ! j) = isFinite (M ! i ! j)"
    and "(subtract_row_minima M ! i ! j = Inf) = (M ! i ! j = Inf)"
    using len row [of i] by (simp_all add: subtract_row_minima_def reduce_row_kind)
qed

lemma length_reduce_col [simp]: "length (reduce_col j M) = length M"
  by (simp add: reduce_col_def split: num.splits)

lemma reduce_col_nth:
  "i < length M \<Longrightarrow>
     reduce_col j M ! i = M ! i \<or> (\<exists>a. reduce_col j M ! i = (M ! i)[j := sub_finite a (M ! i ! j)])"
  by (auto simp: reduce_col_def split: num.splits)

lemma reduce_col_ok:
  assumes "cells_ok m c N M"
  shows "cells_ok m c N (reduce_col j M)"
proof (rule cells_ok_kind [OF assms])
  have len: "length M = N" and row: "\<And>i. i < N \<Longrightarrow> length (M ! i) = N"
    using assms by (auto simp: cells_ok_def shaped_def)
  show "shaped N (reduce_col j M)"
    unfolding shaped_def
  proof (intro conjI allI impI)
    show "length (reduce_col j M) = N" using len by simp
    fix i assume "i < N"
    then show "length (reduce_col j M ! i) = N"
      using reduce_col_nth [of i M j] len row [of i] by auto
  qed
  fix i ja assume ij: "i < N" "ja < N"
  from reduce_col_nth [of i M j] ij len
  consider "reduce_col j M ! i = M ! i"
    | a where "reduce_col j M ! i = (M ! i)[j := sub_finite a (M ! i ! j)]" by auto
  then have "isFinite (reduce_col j M ! i ! ja) = isFinite (M ! i ! ja) \<and>
             (reduce_col j M ! i ! ja = Inf) = (M ! i ! ja = Inf)"
  proof cases
    case 1
    then show ?thesis by simp
  next
    case 2
    then show ?thesis using ij row [of i] by (cases "ja = j") simp_all
  qed
  then show "isFinite (reduce_col j M ! i ! ja) = isFinite (M ! i ! ja)"
    and "(reduce_col j M ! i ! ja = Inf) = (M ! i ! ja = Inf)" by simp_all
qed

lemma subtract_col_minima_ok:
  "cells_ok m c N M \<Longrightarrow> cells_ok m c N (subtract_col_minima M)"
proof -
  have "cells_ok m c N M \<Longrightarrow> cells_ok m c N (fold reduce_col js M)" for js
    by (induction js arbitrary: M) (auto simp: reduce_col_ok)
  then show "cells_ok m c N M \<Longrightarrow> cells_ok m c N (subtract_col_minima M)"
    by (simp add: subtract_col_minima_def)
qed

text \<open>The greedy initial starring.\<close>

definition star_inv ::
  "nat \<Rightarrow> 'a::zero num list list \<Rightarrow> nat list list \<times> bool list \<times> bool list \<Rightarrow> bool" where
  "star_inv N M st =
     (case st of (ms, rc, cc) \<Rightarrow>
        marks_ok N M ms \<and> length rc = N \<and> length cc = N \<and>
        (\<forall>i<N. \<forall>j<N. ms ! i ! j = 0 \<or> (ms ! i ! j = 1 \<and> rc ! i \<and> cc ! j)))"

lemma star_cell_inv:
  assumes "star_inv N M st" and "i < N" and "j < N"
  shows "star_inv N M (star_cell M (i, j) st)"
proof -
  obtain ms rc cc where st: "st = (ms, rc, cc)" by (cases st)
  show ?thesis
  proof (cases "M ! i ! j = Fin 0 \<and> \<not> rc ! i \<and> \<not> cc ! j")
    case False
    with assms st show ?thesis by (auto simp: star_cell_def)
  next
    case True
    let ?ms = "ms[i := (ms ! i)[j := 1]]"
    from assms st have mk: "marks_ok N M ms" and lrc: "length rc = N" and lcc: "length cc = N"
      by (simp_all add: star_inv_def)
    have sh: "shaped N ms" using mk by (rule marks_ok_shaped)
    have upd: "\<And>i' j'. i' < N \<Longrightarrow> j' < N \<Longrightarrow>
        ?ms ! i' ! j' = (if i' = i \<and> j' = j then 1 else ms ! i' ! j')"
      using nth_update2 [OF sh assms(2,3)] by simp
    have cellw: "\<And>i' j'. i' < N \<Longrightarrow> j' < N \<Longrightarrow>
        ms ! i' ! j' = 0 \<or> (ms ! i' ! j' = 1 \<and> rc ! i' \<and> cc ! j')"
      using assms(1) st by (simp add: star_inv_def)
    have old: "\<And>i' j'. i' < N \<Longrightarrow> j' < N \<Longrightarrow> ms ! i' ! j' = 1 \<Longrightarrow> rc ! i' \<and> cc ! j'"
      using cellw by (metis zero_neq_one)
    have "marks_ok N M ?ms"
    proof (rule marks_okI)
      show "shaped N ?ms" using sh by (rule shaped_update)
    next
      fix i' j' assume a: "i' < N" "j' < N"
      show "?ms ! i' ! j' \<le> 2"
        using upd [OF a] marks_ok_le2 [OF mk a] by simp
    next
      fix i' j' assume a: "i' < N" "j' < N" "?ms ! i' ! j' \<noteq> 0"
      show "M ! i' ! j' = Fin 0"
      proof (cases "i' = i \<and> j' = j")
        case True
        with \<open>M ! i ! j = Fin 0 \<and> \<not> rc ! i \<and> \<not> cc ! j\<close> show ?thesis by simp
      next
        case False
        with a upd [of i' j'] have "ms ! i' ! j' \<noteq> 0" by auto
        with mk a show ?thesis by (intro marks_ok_zero)
      qed
    next
      fix i' j' j'' assume a: "i' < N" "j' < N" "j'' < N" "?ms ! i' ! j' = 1" "?ms ! i' ! j'' = 1"
      show "j' = j''"
      proof (cases "i' = i")
        case True
        have "j' = j" using a True upd [of i' j'] old [of i j'] assms(2) \<open>M ! i ! j = Fin 0 \<and> \<not> rc ! i \<and> \<not> cc ! j\<close>
          by (cases "j' = j") auto
        moreover have "j'' = j" using a True upd [of i' j''] old [of i j''] assms(2) \<open>M ! i ! j = Fin 0 \<and> \<not> rc ! i \<and> \<not> cc ! j\<close>
          by (cases "j'' = j") auto
        ultimately show ?thesis by simp
      next
        case False
        with a upd [of i' j'] upd [of i' j''] have "ms ! i' ! j' = 1" "ms ! i' ! j'' = 1" by auto
        with mk a show ?thesis by (intro marks_ok_row [of N M ms i' j' j''])
      qed
    next
      fix i' i'' j' assume a: "i' < N" "i'' < N" "j' < N" "?ms ! i' ! j' = 1" "?ms ! i'' ! j' = 1"
      show "i' = i''"
      proof (cases "j' = j")
        case True
        have "i' = i" using a True upd [of i' j'] old [of i' j] assms(3) \<open>M ! i ! j = Fin 0 \<and> \<not> rc ! i \<and> \<not> cc ! j\<close>
          by (cases "i' = i") auto
        moreover have "i'' = i" using a True upd [of i'' j'] old [of i'' j] assms(3) \<open>M ! i ! j = Fin 0 \<and> \<not> rc ! i \<and> \<not> cc ! j\<close>
          by (cases "i'' = i") auto
        ultimately show ?thesis by simp
      next
        case False
        with a upd [of i' j'] upd [of i'' j'] have "ms ! i' ! j' = 1" "ms ! i'' ! j' = 1" by auto
        with mk a show ?thesis by (intro marks_ok_col [of N M ms i' i'' j'])
      qed
    qed
    moreover have "\<forall>i'<N. \<forall>j'<N. ?ms ! i' ! j' = 0 \<or>
         (?ms ! i' ! j' = 1 \<and> rc[i := True] ! i' \<and> cc[j := True] ! j')"
    proof (intro allI impI)
      fix i' j' assume a: "i' < N" "j' < N"
      show "?ms ! i' ! j' = 0 \<or> (?ms ! i' ! j' = 1 \<and> rc[i := True] ! i' \<and> cc[j := True] ! j')"
        using cellw [OF a] upd [OF a] a lrc lcc assms(2,3)
        by (cases "i' = i"; cases "j' = j") (auto simp: nth_list_update)
    qed
    ultimately show ?thesis
      using True st lrc lcc by (simp add: star_cell_def star_inv_def)
  qed
qed

lemma fold_star_cell_inv:
  "star_inv N M st \<Longrightarrow> \<forall>x \<in> set cs. fst x < N \<and> snd x < N \<Longrightarrow>
     star_inv N M (fold (star_cell M) cs st)"
proof (induction cs arbitrary: st)
  case Nil
  then show ?case by simp
next
  case (Cons x cs)
  obtain i j where x: "x = (i, j)" by (cases x)
  with Cons.prems have "star_inv N M (star_cell M x st)"
    by (auto intro: star_cell_inv)
  with Cons show ?case by simp
qed

lemma initial_stars_ok:
  assumes "length M = N"
  shows "marks_ok N M (initial_stars M)"
    and "\<And>i j. i < N \<Longrightarrow> j < N \<Longrightarrow> initial_stars M ! i ! j \<noteq> 2"
proof -
  let ?st0 = "(replicate N (replicate N (0::nat)), replicate N False, replicate N False)"
  have "star_inv N M ?st0"
    by (simp add: star_inv_def marks_ok_def shaped_def)
  then have "star_inv N M (fold (star_cell M) (cells N N) ?st0)"
    by (rule fold_star_cell_inv) auto
  moreover obtain ms rc cc where f: "fold (star_cell M) (cells N N) ?st0 = (ms, rc, cc)"
    by (cases "fold (star_cell M) (cells N N) ?st0")
  ultimately have mk: "marks_ok N M ms"
    and cw: "\<And>i j. i < N \<Longrightarrow> j < N \<Longrightarrow> ms ! i ! j = 0 \<or> ms ! i ! j = 1"
    by (auto simp: star_inv_def)
  have eq: "initial_stars M = ms"
    using assms f by (simp add: initial_stars_def Let_def)
  show "marks_ok N M (initial_stars M)" using mk eq by simp
  fix i j assume "i < N" "j < N"
  from cw [OF this] show "initial_stars M ! i ! j \<noteq> 2" using eq by auto
qed

subsection \<open>Counting stars\<close>

definition stars :: "nat \<Rightarrow> nat list list \<Rightarrow> (nat \<times> nat) set" where
  "stars N ms = {(i, j). i < N \<and> j < N \<and> ms ! i ! j = 1}"

lemma finite_stars [simp]: "finite (stars N ms)"
proof (rule finite_subset)
  show "stars N ms \<subseteq> {..<N} \<times> {..<N}" by (auto simp: stars_def)
qed simp

lemma stars_in_bounds:
  assumes "marks_ok N M ms" and "cells_ok m c N M" and "i < N" and "j < N" and "ms ! i ! j = 1"
  shows "i < m \<and> j < c"
proof (rule ccontr)
  assume "\<not> (i < m \<and> j < c)"
  with assms have "M ! i ! j = Inf" by (intro cells_ok_inf)
  moreover have "M ! i ! j = Fin 0" using assms by (intro marks_ok_zero) auto
  ultimately show False by simp
qed

lemma inj_on_fst_stars:
  assumes "marks_ok N M ms"
  shows "inj_on fst (stars N ms)"
proof (rule inj_onI)
  fix x y assume a: "x \<in> stars N ms" "y \<in> stars N ms" "fst x = fst y"
  obtain i j where x: "x = (i, j)" by (cases x)
  obtain i' j' where y: "y = (i', j')" by (cases y)
  from a x y have "i < N" "j < N" "j' < N" "ms ! i ! j = 1" "ms ! i ! j' = 1" "i' = i"
    by (simp_all add: stars_def)
  with marks_ok_row [OF assms, of i j j'] x y show "x = y" by simp
qed

lemma inj_on_snd_stars:
  assumes "marks_ok N M ms"
  shows "inj_on snd (stars N ms)"
proof (rule inj_onI)
  fix x y assume a: "x \<in> stars N ms" "y \<in> stars N ms" "snd x = snd y"
  obtain i j where x: "x = (i, j)" by (cases x)
  obtain i' j' where y: "y = (i', j')" by (cases y)
  from a x y have "i < N" "i' < N" "j < N" "ms ! i ! j = 1" "ms ! i' ! j = 1" "j' = j"
    by (simp_all add: stars_def)
  with marks_ok_col [OF assms, of i i' j] x y show "x = y" by simp
qed

lemma card_stars_le:
  assumes "marks_ok N M ms" and "cells_ok m c N M"
  shows "card (stars N ms) \<le> min m c"
proof -
  have "\<And>x. x \<in> stars N ms \<Longrightarrow> fst x < m \<and> snd x < c"
    using stars_in_bounds [OF assms] by (clarsimp simp: stars_def)
  then have "fst ` stars N ms \<subseteq> {..<m}" "snd ` stars N ms \<subseteq> {..<c}"
    by blast+
  then have "card (fst ` stars N ms) \<le> m" "card (snd ` stars N ms) \<le> c"
    using card_mono [of "{..<m}"] card_mono [of "{..<c}"] by auto
  then show ?thesis
    using card_image [OF inj_on_fst_stars [OF assms(1)]] card_image [OF inj_on_snd_stars [OF assms(1)]]
    by simp
qed

lemma card_stars_ge_rows:
  assumes "\<And>i. i \<in> A \<Longrightarrow> i < N \<and> (\<exists>j<N. ms ! i ! j = 1)"
  shows "card A \<le> card (stars N ms)"
proof -
  have "A \<subseteq> fst ` stars N ms"
  proof
    fix i assume "i \<in> A"
    from assms [OF this] obtain j where "i < N" "j < N" "ms ! i ! j = 1" by blast
    then have "(i, j) \<in> stars N ms" by (simp add: stars_def)
    then show "i \<in> fst ` stars N ms" by (metis fst_conv image_eqI)
  qed
  then have "card A \<le> card (fst ` stars N ms)" by (intro card_mono) auto
  also have "\<dots> \<le> card (stars N ms)" by (intro card_image_le) simp
  finally show ?thesis .
qed

lemma card_stars_ge_cols:
  assumes "\<And>j. j \<in> A \<Longrightarrow> j < N \<and> (\<exists>i<N. ms ! i ! j = 1)"
  shows "card A \<le> card (stars N ms)"
proof -
  have "A \<subseteq> snd ` stars N ms"
  proof
    fix j assume "j \<in> A"
    from assms [OF this] obtain i where "i < N" "j < N" "ms ! i ! j = 1" by blast
    then have "(i, j) \<in> stars N ms" by (simp add: stars_def)
    then show "j \<in> snd ` stars N ms" by (metis snd_conv image_eqI)
  qed
  then have "card A \<le> card (snd ` stars N ms)" by (intro card_mono) auto
  also have "\<dots> \<le> card (stars N ms)" by (intro card_image_le) simp
  finally show ?thesis .
qed

subsection \<open>The invariant of the step machine\<close>

text \<open>
  Between two augmentations (steps 2 and 6): a row is covered exactly when it holds a
  prime; a primed cell lies in an uncovered column of a row that has a star; a star is
  covered by its column or else by its row; a covered column holds a star; and the star in
  the column of a prime, if any, lies in a row that was covered before the prime's row
  (\<open>rk\<close> numbers the rows in the order they were covered).
\<close>

definition cover_ok :: "nat \<Rightarrow> nat list list \<Rightarrow> bool list \<Rightarrow> bool list \<Rightarrow> bool" where
  "cover_ok N ms rc cc =
     ((\<forall>i<N. rc ! i \<longleftrightarrow> (\<exists>j<N. ms ! i ! j = 2)) \<and>
      (\<forall>i<N. \<forall>j<N. ms ! i ! j = 2 \<longrightarrow> \<not> cc ! j) \<and>
      (\<forall>i<N. \<forall>j<N. ms ! i ! j = 2 \<longrightarrow> (\<exists>j'<N. ms ! i ! j' = 1)) \<and>
      (\<forall>i<N. \<forall>j<N. ms ! i ! j = 1 \<longrightarrow> (cc ! j \<longleftrightarrow> \<not> rc ! i)) \<and>
      (\<forall>j<N. cc ! j \<longrightarrow> (\<exists>i<N. ms ! i ! j = 1)) \<and>
      (\<forall>i<N. \<forall>j<N. \<forall>j'<N. ms ! i ! j = 2 \<and> ms ! i ! j' = 2 \<longrightarrow> j = j') \<and>
      (\<exists>rk :: nat \<Rightarrow> nat. \<forall>i<N. \<forall>i'<N. \<forall>j<N. ms ! i ! j = 2 \<and> ms ! i' ! j = 1 \<longrightarrow> rk i' < rk i))"

lemma cover_ok_row: "cover_ok N ms rc cc \<Longrightarrow> i < N \<Longrightarrow> rc ! i \<longleftrightarrow> (\<exists>j<N. ms ! i ! j = 2)"
  by (simp add: cover_ok_def)

lemma cover_ok_prime_col: "cover_ok N ms rc cc \<Longrightarrow> i < N \<Longrightarrow> j < N \<Longrightarrow> ms ! i ! j = 2 \<Longrightarrow> \<not> cc ! j"
  by (simp add: cover_ok_def)

lemma cover_ok_prime_star:
  "cover_ok N ms rc cc \<Longrightarrow> i < N \<Longrightarrow> j < N \<Longrightarrow> ms ! i ! j = 2 \<Longrightarrow> \<exists>j'<N. ms ! i ! j' = 1"
  by (simp add: cover_ok_def)

lemma cover_ok_star:
  "cover_ok N ms rc cc \<Longrightarrow> i < N \<Longrightarrow> j < N \<Longrightarrow> ms ! i ! j = 1 \<Longrightarrow> cc ! j \<longleftrightarrow> \<not> rc ! i"
  by (simp add: cover_ok_def)

lemma cover_ok_col: "cover_ok N ms rc cc \<Longrightarrow> j < N \<Longrightarrow> cc ! j \<Longrightarrow> \<exists>i<N. ms ! i ! j = 1"
  by (simp add: cover_ok_def)

lemma cover_ok_prime_unique:
  "cover_ok N ms rc cc \<Longrightarrow> i < N \<Longrightarrow> j < N \<Longrightarrow> j' < N \<Longrightarrow> ms ! i ! j = 2 \<Longrightarrow> ms ! i ! j' = 2
     \<Longrightarrow> j = j'"
  by (simp add: cover_ok_def)

lemma cover_ok_rank:
  "cover_ok N ms rc cc \<Longrightarrow>
     \<exists>rk :: nat \<Rightarrow> nat. \<forall>i<N. \<forall>i'<N. \<forall>j<N. ms ! i ! j = 2 \<and> ms ! i' ! j = 1 \<longrightarrow> rk i' < rk i"
  by (simp add: cover_ok_def)

definition hinv :: "nat \<Rightarrow> nat \<Rightarrow> nat \<Rightarrow> 'a::zero hstate \<Rightarrow> bool" where
  "hinv m c N s =
     (m \<le> N \<and> c \<le> N \<and> cells_ok m c N (matrix s) \<and> marks_ok N (matrix s) (masks s) \<and>
      length (rowCover s) = N \<and> length (colCover s) = N \<and>
      (step s = 1 \<and> (\<forall>i<N. \<forall>j<N. masks s ! i ! j \<noteq> 2) \<and> (\<forall>i<N. \<not> rowCover s ! i)
       \<or> (step s = 2 \<or> step s = 6) \<and> cover_ok N (masks s) (rowCover s) (colCover s)))"

text \<open>
  A state the loop stops in: step 0, reached from step 1 with a star in each of the \<open>N\<close>
  columns or from step 6 with no finite uncovered value; either way the stars are as many
  as the smaller side of the input.
\<close>

definition hfinal :: "nat \<Rightarrow> nat \<Rightarrow> nat \<Rightarrow> 'a::{zero,ord} hstate \<Rightarrow> bool" where
  "hfinal m c N s =
     (step s = 0 \<and> marks_ok N (matrix s) (masks s) \<and> cells_ok m c N (matrix s) \<and>
      card (stars N (masks s)) = min m c \<and>
      (list_all (\<lambda>j. colCover s ! j \<and> list_ex (\<lambda>r. r ! j = 1) (masks s)) [0..<N] \<or>
       \<not> isFinite (findMinUncoveredValue (matrix s) (rowCover s) (colCover s))))"

lemma length_filter_eq: "length (filter P xs) = length xs \<longleftrightarrow> (\<forall>x \<in> set xs. P x)"
  by (metis filter_True length_filter_less less_irrefl)

lemma list_ex_col: "shaped N ms \<Longrightarrow> list_ex (\<lambda>r. r ! j = 1) ms \<longleftrightarrow> (\<exists>i<N. ms ! i ! j = 1)"
  unfolding list_ex_iff shaped_def by (metis in_set_conv_nth)

text \<open>Step 1.\<close>

lemma hstep_1:
  fixes s :: "'a::linordered_ab_group_add hstate"
  assumes "hinv m c N s" and "step s = 1" and "length (matrix s) = N"
  shows "\<exists>s'. hstep s = Some (Inr s') \<and> masks s' = masks s \<and> matrix s' = matrix s \<and>
           rowCover s' = rowCover s \<and>
           (step s' = 0 \<and> hfinal m c N s' \<or> step s' = 2 \<and> hinv m c N s')"
proof -
  let ?cc = "map (\<lambda>j. list_ex (\<lambda>r. r ! j = 1) (masks s)) [0..<N]"
  let ?s' = "s\<lparr>colCover := ?cc, step := (if length (filter (\<lambda>c. c) ?cc) = N then 0 else 2)\<rparr>"
  from assms(1) have mk: "marks_ok N (matrix s) (masks s)" and ck: "cells_ok m c N (matrix s)"
    and mN: "m \<le> N" and cN: "c \<le> N" and lrc: "length (rowCover s) = N"
    by (simp_all add: hinv_def)
  from assms(1,2) have noprime: "\<And>i j. i < N \<Longrightarrow> j < N \<Longrightarrow> masks s ! i ! j \<noteq> 2"
    and norow: "\<And>i. i < N \<Longrightarrow> \<not> rowCover s ! i"
    by (simp_all add: hinv_def)
  have sh: "shaped N (masks s)" using mk by (rule marks_ok_shaped)
  have cc: "\<And>j. j < N \<Longrightarrow> ?cc ! j \<longleftrightarrow> (\<exists>i<N. masks s ! i ! j = 1)"
    using list_ex_col [OF sh] by simp
  have step: "hstep s = Some (Inr ?s')"
    using assms(2,3) by (simp add: hstep_def Let_def)
  show ?thesis
  proof (cases "length (filter (\<lambda>c. c) ?cc) = N")
    case True
    then have "length (filter (\<lambda>c. c) ?cc) = length ?cc" by simp
    then have "\<forall>x \<in> set ?cc. x"
      unfolding length_filter_eq .
    then have all: "\<And>j. j < N \<Longrightarrow> ?cc ! j"
      using nth_mem [of _ ?cc] by simp
    have "card {..<N} \<le> card (stars N (masks s))"
      using all cc by (intro card_stars_ge_cols) auto
    moreover have "card (stars N (masks s)) \<le> min m c"
      using mk ck by (rule card_stars_le)
    ultimately have "card (stars N (masks s)) = min m c"
      using mN cN by simp
    moreover have "list_all (\<lambda>j. ?cc ! j \<and> list_ex (\<lambda>r. r ! j = 1) (masks s)) [0..<N]"
      using all by (simp add: list_all_iff)
    ultimately have "hfinal m c N ?s'"
      using True mk ck by (simp add: hfinal_def)
    with step True show ?thesis by (intro exI [of _ ?s']) simp
  next
    case False
    have "cover_ok N (masks s) (rowCover s) ?cc"
      unfolding cover_ok_def
    proof (intro conjI allI impI)
      fix i assume "i < N"
      then show "rowCover s ! i = (\<exists>j<N. masks s ! i ! j = 2)"
        using noprime norow by blast
    next
      fix i j assume "i < N" "j < N" "masks s ! i ! j = 1"
      then show "?cc ! j = (\<not> rowCover s ! i)"
        using norow cc by blast
    next
      fix j assume "j < N" "?cc ! j"
      then show "\<exists>i<N. masks s ! i ! j = 1" using cc by blast
    next
      show "\<exists>rk :: nat \<Rightarrow> nat. \<forall>i<N. \<forall>i'<N. \<forall>j<N.
              masks s ! i ! j = 2 \<and> masks s ! i' ! j = 1 \<longrightarrow> rk i' < rk i"
        using noprime by blast
    qed (use noprime in blast)+
    then have "hinv m c N ?s'"
      using False mk ck mN cN lrc by (simp add: hinv_def)
    with step False show ?thesis by (intro exI [of _ ?s']) simp
  qed
qed

lemma hinv_parts:
  assumes "hinv m c N s"
  shows "m \<le> N" "c \<le> N" "cells_ok m c N (matrix s)" "marks_ok N (matrix s) (masks s)"
    "length (rowCover s) = N" "length (colCover s) = N"
  using assms by (simp_all add: hinv_def)

lemma hinv_cover:
  "hinv m c N s \<Longrightarrow> step s = 2 \<or> step s = 6 \<Longrightarrow> cover_ok N (masks s) (rowCover s) (colCover s)"
  by (auto simp: hinv_def)

lemma hinvI_cover:
  "m \<le> N \<Longrightarrow> c \<le> N \<Longrightarrow> cells_ok m c N (matrix s) \<Longrightarrow> marks_ok N (matrix s) (masks s) \<Longrightarrow>
   length (rowCover s) = N \<Longrightarrow> length (colCover s) = N \<Longrightarrow> step s = 2 \<or> step s = 6 \<Longrightarrow>
   cover_ok N (masks s) (rowCover s) (colCover s) \<Longrightarrow> hinv m c N s"
  by (simp add: hinv_def)

text \<open>Step 6.\<close>

lemma adjust_cell_kind [simp]:
  "isFinite (adjust_cell a b w x) = isFinite x" "(adjust_cell a b w x = Inf) = (x = Inf)"
  by (cases x; simp add: adjust_cell_def Let_def)+

lemma adjust_cell_zero:
  fixes w :: "'a::ab_group_add"
  shows "a \<noteq> b \<Longrightarrow> adjust_cell a b w (Fin 0) = Fin 0"
  by (cases a; cases b) (simp_all add: adjust_cell_def Let_def)

lemma adjust_cell_min:
  fixes w :: "'a::ab_group_add"
  shows "adjust_cell False False w (Fin w) = Fin 0"
  by (simp add: adjust_cell_def Let_def)

lemma filter_Not_update:
  "i < length xs \<Longrightarrow> \<not> xs ! i \<Longrightarrow>
     length (filter Not (xs[i := True])) < length (filter Not xs)"
proof (induction xs arbitrary: i)
  case Nil
  then show ?case by simp
next
  case (Cons x xs)
  show ?case
  proof (cases i)
    case 0
    with Cons.prems show ?thesis by simp
  next
    case (Suc k)
    with Cons.prems have "length (filter Not (xs[k := True])) < length (filter Not xs)"
      by (intro Cons.IH) auto
    with Suc show ?thesis by simp
  qed
qed

lemma hstep_6:
  fixes s :: "'a::linordered_ab_group_add hstate"
  assumes "hinv m c N s" and "step s = 6" and "length (matrix s) = N"
  shows "\<exists>s'. hstep s = Some (Inr s') \<and> masks s' = masks s \<and> rowCover s' = rowCover s \<and>
           length (matrix s') = N \<and>
           (step s' = 0 \<and> hfinal m c N s' \<or>
            step s' = 2 \<and> hinv m c N s' \<and>
              findUncoveredZero (matrix s') (rowCover s') (colCover s') \<noteq> None)"
proof -
  note p = hinv_parts [OF assms(1)]
  have cov: "cover_ok N (masks s) (rowCover s) (colCover s)"
    using assms(1,2) by (intro hinv_cover) auto
  have sh: "shaped N (matrix s)" using p(3) by (rule cells_ok_shaped)
  have nn: "\<forall>i<N. \<forall>j<N. matrix s ! i ! j \<noteq> NaN"
    using cells_ok_not_NaN [OF p(3)] by blast
  show ?thesis
  proof (cases "findMinUncoveredValue (matrix s) (rowCover s) (colCover s)")
    case (Fin w)
    let ?M = "map (\<lambda>i. map (\<lambda>j. adjust_cell (rowCover s ! i) (colCover s ! j) w
                                 (matrix s ! i ! j)) [0..<N]) [0..<N]"
    let ?s' = "s\<lparr>matrix := ?M, step := 2\<rparr>"
    have step: "hstep s = Some (Inr ?s')"
      using assms(2,3) Fin by (simp add: hstep_def Let_def)
    have M: "\<And>i j. i < N \<Longrightarrow> j < N \<Longrightarrow>
        ?M ! i ! j = adjust_cell (rowCover s ! i) (colCover s ! j) w (matrix s ! i ! j)"
      by simp
    have shM: "shaped N ?M" by (simp add: shaped_def)
    have ck: "cells_ok m c N ?M"
      by (rule cells_ok_kind [OF p(3) shM]) (simp_all only: M adjust_cell_kind)
    have mk: "marks_ok N ?M (masks s)"
    proof (rule marks_okI)
      show "shaped N (masks s)" using p(4) by (rule marks_ok_shaped)
    next
      fix i j assume a: "i < N" "j < N"
      show "masks s ! i ! j \<le> 2" using p(4) a by (rule marks_ok_le2)
    next
      fix i j assume a: "i < N" "j < N" "masks s ! i ! j \<noteq> 0"
      have z: "matrix s ! i ! j = Fin 0" using p(4) a by (rule marks_ok_zero)
      have "masks s ! i ! j \<le> 2" using p(4) a(1,2) by (rule marks_ok_le2)
      with a(3) consider "masks s ! i ! j = 1" | "masks s ! i ! j = 2" by linarith
      then have "rowCover s ! i \<noteq> colCover s ! j"
      proof cases
        case 1
        with cover_ok_star [OF cov a(1,2)] show ?thesis by blast
      next
        case 2
        with cover_ok_row [OF cov a(1)] cover_ok_prime_col [OF cov a(1,2)] a(2)
        show ?thesis by blast
      qed
      then show "?M ! i ! j = Fin 0"
        using M [OF a(1,2)] z by (simp add: adjust_cell_zero)
    next
      fix i j j' assume "i < N" "j < N" "j' < N" "masks s ! i ! j = 1" "masks s ! i ! j' = 1"
      with p(4) show "j = j'" by (rule marks_ok_row)
    next
      fix i i' j assume "i < N" "i' < N" "j < N" "masks s ! i ! j = 1" "masks s ! i' ! j = 1"
      with p(4) show "i = i'" by (rule marks_ok_col)
    qed
    have inv: "hinv m c N ?s'"
      using p ck mk cov by (intro hinvI_cover) simp_all
    from findMinUncoveredValue_Fin [OF sh nn Fin]
    obtain i j where ij: "i < N" "j < N" "\<not> rowCover s ! i" "\<not> colCover s ! j"
      "matrix s ! i ! j = Fin w" by blast
    then have "?M ! i ! j = Fin 0" using M [OF ij(1,2)] by (simp add: adjust_cell_min)
    with ij have "findUncoveredZero ?M (rowCover s) (colCover s) \<noteq> None"
      unfolding findUncoveredZero_None [OF shM] by blast
    with step inv show ?thesis by (intro exI [of _ ?s']) simp
  next
    case Inf
    let ?s' = "s\<lparr>step := 0\<rparr>"
    have step: "hstep s = Some (Inr ?s')"
      using assms(2,3) Inf by (simp add: hstep_def Let_def)
    have "\<not> isFinite (findMinUncoveredValue (matrix s) (rowCover s) (colCover s))"
      using Inf by simp
    note unc = findMinUncoveredValue_not_Fin [OF sh nn this]
    have le: "card (stars N (masks s)) \<le> min m c" using p(4,3) by (rule card_stars_le)
    have "min m c \<le> card (stars N (masks s))"
    proof (cases "\<forall>i<m. rowCover s ! i")
      case True
      have "card {..<m} \<le> card (stars N (masks s))"
      proof (rule card_stars_ge_rows)
        fix i assume "i \<in> {..<m}"
        then have i: "i < m" "i < N" using p(1) by auto
        with True cover_ok_row [OF cov i(2)] obtain j where "j < N" "masks s ! i ! j = 2"
          by blast
        from cover_ok_prime_star [OF cov i(2) this] i(2)
        show "i < N \<and> (\<exists>j<N. masks s ! i ! j = 1)" by simp
      qed
      then show ?thesis by simp
    next
      case False
      then obtain i0 where i0: "i0 < m" "\<not> rowCover s ! i0" by blast
      have "card {..<c} \<le> card (stars N (masks s))"
      proof (rule card_stars_ge_cols)
        fix j assume "j \<in> {..<c}"
        then have j: "j < c" "j < N" using p(2) by auto
        have i0N: "i0 < N" using i0 p(1) by simp
        have "colCover s ! j"
        proof (rule ccontr)
          assume "\<not> colCover s ! j"
          with unc i0 i0N j have "matrix s ! i0 ! j = Inf" by blast
          moreover have "isFinite (matrix s ! i0 ! j)"
            using p(3) i0N j(2) i0(1) j(1) by (rule cells_ok_fin)
          ultimately show False by simp
        qed
        from cover_ok_col [OF cov j(2) this] j(2)
        show "j < N \<and> (\<exists>i<N. masks s ! i ! j = 1)" by simp
      qed
      then show ?thesis by simp
    qed
    with le have "card (stars N (masks s)) = min m c" by (rule order_antisym)
    then have "hfinal m c N ?s'"
      using p Inf by (simp add: hfinal_def)
    with step assms(3) show ?thesis by (intro exI [of _ ?s']) simp
  next
    case NaN
    from fold_min_acc [where P = "\<lambda>c. \<not> rowCover s ! fst c \<and> \<not> colCover s ! snd c"
        and f = "\<lambda>c. matrix s ! fst c ! snd c" and cs = "cells N N" and acc = Inf] nn NaN sh
    show ?thesis
      by (simp add: findMinUncoveredValue_def shaped_cells case_prod_unfold)
  qed
qed

text \<open>Step 2 when no uncovered zero is left.\<close>

lemma hstep_2_none:
  fixes s :: "'a::linordered_ab_group_add hstate"
  assumes "hinv m c N s" and "step s = 2"
    and "findUncoveredZero (matrix s) (rowCover s) (colCover s) = None"
  shows "hstep s = Some (Inr (s\<lparr>step := 6\<rparr>)) \<and> hinv m c N (s\<lparr>step := 6\<rparr>)"
proof -
  have "hinv m c N (s\<lparr>step := 6\<rparr>)"
    using hinv_parts [OF assms(1)] hinv_cover [OF assms(1)] assms(2)
    by (intro hinvI_cover) simp_all
  then show ?thesis using assms(2,3) by (simp add: hstep_def Let_def)
qed

text \<open>Step 2 when an uncovered zero is found: the effect of priming it.\<close>

lemma prime_zero:
  fixes s :: "'a::linordered_ab_group_add hstate"
  assumes inv: "hinv m c N s" and st: "step s = 2"
    and z: "findUncoveredZero (matrix s) (rowCover s) (colCover s) = Some (zr, zc)"
  defines "ms' \<equiv> (masks s)[zr := (masks s ! zr)[zc := 2]]"
  shows "zr < N" "zc < N" "\<not> rowCover s ! zr" "\<not> colCover s ! zc"
    and "\<And>i j. i < N \<Longrightarrow> j < N \<Longrightarrow>
           ms' ! i ! j = (if i = zr \<and> j = zc then 2 else masks s ! i ! j)"
    and "\<And>i j. i < N \<Longrightarrow> j < N \<Longrightarrow> ms' ! i ! j = 1 \<longleftrightarrow> masks s ! i ! j = 1"
    and "\<And>j. j < N \<Longrightarrow> masks s ! zr ! j \<noteq> 2"
    and "marks_ok N (matrix s) ms'"
    and "\<exists>rk :: nat \<Rightarrow> nat. \<forall>i<N. \<forall>i'<N. \<forall>j<N. ms' ! i ! j = 2 \<and> ms' ! i' ! j = 1 \<longrightarrow> rk i' < rk i"
proof -
  note p = hinv_parts [OF inv]
  have cov: "cover_ok N (masks s) (rowCover s) (colCover s)"
    using inv st by (intro hinv_cover) auto
  have shM: "shaped N (matrix s)" using p(3) by (rule cells_ok_shaped)
  have sh: "shaped N (masks s)" using p(4) by (rule marks_ok_shaped)
  from findUncoveredZero_Some [OF shM z]
  have zb: "zr < N" "zc < N" and unc: "\<not> rowCover s ! zr" "\<not> colCover s ! zc"
    and zero: "matrix s ! zr ! zc = Fin 0" by simp_all
  show "zr < N" "zc < N" "\<not> rowCover s ! zr" "\<not> colCover s ! zc"
    by (fact zb unc)+
  show upd: "\<And>i j. i < N \<Longrightarrow> j < N \<Longrightarrow>
           ms' ! i ! j = (if i = zr \<and> j = zc then 2 else masks s ! i ! j)"
    unfolding ms'_def using nth_update2 [OF sh zb] by simp
  show noprime: "\<And>j. j < N \<Longrightarrow> masks s ! zr ! j \<noteq> 2"
    using cover_ok_row [OF cov zb(1)] unc(1) by blast
  have nostar: "masks s ! zr ! zc \<noteq> 1"
    using cover_ok_star [OF cov zb] unc by blast
  show stars: "\<And>i j. i < N \<Longrightarrow> j < N \<Longrightarrow> ms' ! i ! j = 1 \<longleftrightarrow> masks s ! i ! j = 1"
    using upd nostar by simp
  show "marks_ok N (matrix s) ms'"
  proof (rule marks_okI)
    show "shaped N ms'" unfolding ms'_def using sh by (rule shaped_update)
  next
    fix i j assume a: "i < N" "j < N"
    show "ms' ! i ! j \<le> 2" using upd [OF a] marks_ok_le2 [OF p(4) a] by simp
  next
    fix i j assume a: "i < N" "j < N" "ms' ! i ! j \<noteq> 0"
    show "matrix s ! i ! j = Fin 0"
    proof (cases "i = zr \<and> j = zc")
      case True
      with zero show ?thesis by simp
    next
      case False
      with a upd [OF a(1,2)] have "masks s ! i ! j \<noteq> 0" by simp
      with p(4) a(1,2) show ?thesis by (rule marks_ok_zero)
    qed
  next
    fix i j j' assume a: "i < N" "j < N" "j' < N" "ms' ! i ! j = 1" "ms' ! i ! j' = 1"
    then have "masks s ! i ! j = 1" "masks s ! i ! j' = 1" using stars by simp_all
    with p(4) a(1,2,3) show "j = j'" by (rule marks_ok_row)
  next
    fix i i' j assume a: "i < N" "i' < N" "j < N" "ms' ! i ! j = 1" "ms' ! i' ! j = 1"
    then have "masks s ! i ! j = 1" "masks s ! i' ! j = 1" using stars by simp_all
    with p(4) a(1,2,3) show "i = i'" by (rule marks_ok_col)
  qed
  from cover_ok_rank [OF cov] obtain rk :: "nat \<Rightarrow> nat" where
    rk: "\<And>i i' j. i < N \<Longrightarrow> i' < N \<Longrightarrow> j < N \<Longrightarrow> masks s ! i ! j = 2 \<Longrightarrow>
           masks s ! i' ! j = 1 \<Longrightarrow> rk i' < rk i" by blast
  define rk' where "rk' = rk(zr := Suc (Max (rk ` {..<N})))"
  have bound: "\<And>i. i < N \<Longrightarrow> rk i \<le> Max (rk ` {..<N})" by (intro Max_ge) auto
  have "\<forall>i<N. \<forall>i'<N. \<forall>j<N. ms' ! i ! j = 2 \<and> ms' ! i' ! j = 1 \<longrightarrow> rk' i' < rk' i"
  proof (intro allI impI)
    fix i i' j assume a: "i < N" "i' < N" "j < N" "ms' ! i ! j = 2 \<and> ms' ! i' ! j = 1"
    then have star: "masks s ! i' ! j = 1" using stars by simp
    show "rk' i' < rk' i"
    proof (cases "i = zr")
      case True
      with a upd [OF a(1,3)] noprime [OF a(3)] have "j = zc" by (cases "j = zc") simp_all
      with a upd [OF a(2,3)] have "i' \<noteq> zr" by auto
      with True bound [OF a(2)] show ?thesis by (simp add: rk'_def)
    next
      case False
      with a upd [OF a(1,3)] have pr: "masks s ! i ! j = 2" by simp
      have "i' \<noteq> zr"
      proof
        assume "i' = zr"
        with star cover_ok_star [OF cov zb(1) a(3)] unc(1) have "colCover s ! j" by simp
        with cover_ok_prime_col [OF cov a(1,3) pr] show False by simp
      qed
      with False rk [OF a(1,2,3) pr star] show ?thesis by (simp add: rk'_def)
    qed
  qed
  then show "\<exists>rk :: nat \<Rightarrow> nat. \<forall>i<N. \<forall>i'<N. \<forall>j<N.
      ms' ! i ! j = 2 \<and> ms' ! i' ! j = 1 \<longrightarrow> rk i' < rk i" by blast
qed

lemma stars_cong:
  "(\<And>i j. i < N \<Longrightarrow> j < N \<Longrightarrow> ms' ! i ! j = 1 \<longleftrightarrow> ms ! i ! j = 1) \<Longrightarrow> stars N ms' = stars N ms"
  by (auto simp: stars_def)

text \<open>The primed zero has a star in its row: cover the row, uncover the star's column.\<close>

lemma hstep_2_cover:
  fixes s :: "'a::linordered_ab_group_add hstate"
  assumes inv: "hinv m c N s" and st: "step s = 2"
    and z: "findUncoveredZero (matrix s) (rowCover s) (colCover s) = Some (zr, zc)"
    and sr: "findStarInRow ((masks s)[zr := (masks s ! zr)[zc := 2]]) zr = Some starCol"
  shows "\<exists>s'. hstep s = Some (Inr s') \<and> step s' = 2 \<and> hinv m c N s' \<and>
           matrix s' = matrix s \<and> stars N (masks s') = stars N (masks s) \<and>
           length (filter Not (rowCover s')) < length (filter Not (rowCover s))"
proof -
  let ?ms = "(masks s)[zr := (masks s ! zr)[zc := 2]]"
  let ?rc = "(rowCover s)[zr := True]"
  let ?cc = "(colCover s)[starCol := False]"
  let ?s' = "s\<lparr>masks := ?ms, rowCover := ?rc, colCover := ?cc, step := 2\<rparr>"
  note p = hinv_parts [OF inv]
  note q = prime_zero [OF inv st z]
  have cov: "cover_ok N (masks s) (rowCover s) (colCover s)"
    using inv st by (intro hinv_cover) auto
  have step: "hstep s = Some (Inr ?s')"
    using st z sr by (simp add: hstep_def Let_def)
  have sh': "shaped N ?ms" using q(8) by (rule marks_ok_shaped)
  from findStarInRow_Some [OF sh' q(1) sr]
  have sc: "starCol < N" "?ms ! zr ! starCol = 1" by simp_all
  then have sc_old: "masks s ! zr ! starCol = 1" and sc_ne: "starCol \<noteq> zc"
    using q(5) [OF q(1) sc(1)] by (auto split: if_splits)
  have rc: "\<And>i. i < N \<Longrightarrow> ?rc ! i = (if i = zr then True else rowCover s ! i)"
    using p(5) by (simp add: nth_list_update)
  have cc: "\<And>j. j < N \<Longrightarrow> ?cc ! j = (if j = starCol then False else colCover s ! j)"
    using p(6) by (simp add: nth_list_update)
  have "cover_ok N ?ms ?rc ?cc"
    unfolding cover_ok_def
  proof (intro conjI allI impI)
    fix i assume i: "i < N"
    show "?rc ! i = (\<exists>j<N. ?ms ! i ! j = 2)"
    proof (cases "i = zr")
      case True
      with q(5) [OF q(1,2)] q(2) rc [OF i] show ?thesis by auto
    next
      case False
      with q(5) [OF i] rc [OF i] cover_ok_row [OF cov i] show ?thesis by simp
    qed
  next
    fix i j assume a: "i < N" "j < N" "?ms ! i ! j = 2"
    have "\<not> colCover s ! j"
    proof (cases "i = zr \<and> j = zc")
      case True
      with q(4) show ?thesis by simp
    next
      case False
      with a q(5) [OF a(1,2)] have "masks s ! i ! j = 2" by simp
      with cov a(1,2) show ?thesis by (rule cover_ok_prime_col)
    qed
    then show "\<not> ?cc ! j" using cc [OF a(2)] by simp
  next
    fix i j assume a: "i < N" "j < N" "?ms ! i ! j = 2"
    show "\<exists>j'<N. ?ms ! i ! j' = 1"
    proof (cases "i = zr")
      case True
      with sc show ?thesis by blast
    next
      case False
      with a q(5) [OF a(1,2)] have "masks s ! i ! j = 2" by simp
      from cover_ok_prime_star [OF cov a(1,2) this] obtain j' where "j' < N" "masks s ! i ! j' = 1"
        by blast
      with q(6) [OF a(1)] show ?thesis by blast
    qed
  next
    fix i j assume a: "i < N" "j < N" "?ms ! i ! j = 1"
    then have old: "masks s ! i ! j = 1" using q(6) by simp
    show "?cc ! j = (\<not> ?rc ! i)"
    proof (cases "i = zr")
      case True
      with old sc_old marks_ok_row [OF p(4) q(1) a(2) sc(1)] have "j = starCol" by simp
      with True cc [OF a(2)] rc [OF a(1)] show ?thesis by simp
    next
      case False
      have "j \<noteq> starCol"
      proof
        assume "j = starCol"
        with old sc_old marks_ok_col [OF p(4) a(1) q(1) sc(1)] have "i = zr" by simp
        with False show False by simp
      qed
      with False cc [OF a(2)] rc [OF a(1)] cover_ok_star [OF cov a(1,2) old] show ?thesis
        by simp
    qed
  next
    fix j assume a: "j < N" "?cc ! j"
    then have "colCover s ! j" using cc [OF a(1)] by (simp split: if_splits)
    from cover_ok_col [OF cov a(1) this] obtain i where "i < N" "masks s ! i ! j = 1" by blast
    with q(6) [OF _ a(1)] show "\<exists>i<N. ?ms ! i ! j = 1" by blast
  next
    fix i j j' assume a: "i < N" "j < N" "j' < N" "?ms ! i ! j = 2 \<and> ?ms ! i ! j' = 2"
    show "j = j'"
    proof (cases "i = zr")
      case True
      with a q(5) [OF a(1,2)] q(5) [OF a(1,3)] q(7) [OF a(2)] q(7) [OF a(3)]
      show ?thesis by (cases "j = zc"; cases "j' = zc") simp_all
    next
      case False
      with a q(5) [OF a(1,2)] q(5) [OF a(1,3)]
      have "masks s ! i ! j = 2" "masks s ! i ! j' = 2" by simp_all
      with cov a(1,2,3) show ?thesis by (rule cover_ok_prime_unique)
    qed
  next
    show "\<exists>rk :: nat \<Rightarrow> nat. \<forall>i<N. \<forall>i'<N. \<forall>j<N.
        ?ms ! i ! j = 2 \<and> ?ms ! i' ! j = 1 \<longrightarrow> rk i' < rk i" by (rule q(9))
  qed
  then have "hinv m c N ?s'"
    using p q(8) by (intro hinvI_cover) simp_all
  moreover have "stars N ?ms = stars N (masks s)"
    using q(6) by (rule stars_cong)
  moreover have "length (filter Not ?rc) < length (filter Not (rowCover s))"
    using q(1,3) p(5) by (intro filter_Not_update) simp_all
  ultimately show ?thesis
    using step by (intro exI [of _ ?s']) simp
qed

subsection \<open>The augmenting path\<close>

text \<open>
  \<open>pcol ms r\<close> is the column of the prime of row \<open>r\<close>.  The path visits a list of rows:
  after row \<open>r\<close> comes the row of the star in the column of \<open>r\<close>'s prime, until that column
  has no star.
\<close>

definition pcol :: "nat list list \<Rightarrow> nat \<Rightarrow> nat" where
  "pcol ms r = the (findPrimeInRow ms r)"

fun chain :: "nat list list \<Rightarrow> nat \<Rightarrow> nat list \<Rightarrow> bool" where
  "chain ms r [] = (findStarInCol ms (pcol ms r) = None)"
| "chain ms r (r' # rs) =
     (findStarInCol ms (pcol ms r) = Some r' \<and> findPrimeInRow ms r' \<noteq> None \<and> chain ms r' rs)"

fun tailp :: "nat list list \<Rightarrow> nat \<Rightarrow> nat list \<Rightarrow> cell list" where
  "tailp ms r [] = []"
| "tailp ms r (r' # rs) = (r', pcol ms r) # (r', pcol ms r') # tailp ms r' rs"

lemma augmentLoop_chain:
  "chain ms r rs \<Longrightarrow> augmentLoop ms (pcol ms r) acc = Some (Inr (acc @ tailp ms r rs))"
proof (induction rs arbitrary: r acc)
  case Nil
  then show ?case by (subst augmentLoop.simps) simp
next
  case (Cons r' rs)
  from Cons.prems obtain pc where pc: "findPrimeInRow ms r' = Some pc" by auto
  then have "pcol ms r' = pc" by (simp add: pcol_def)
  with Cons.prems pc Cons.IH [of r' "acc @ [(r', pcol ms r), (r', pcol ms r')]"]
  show ?case by (subst augmentLoop.simps) simp
qed

definition has_prime :: "nat \<Rightarrow> nat list list \<Rightarrow> nat \<Rightarrow> bool" where
  "has_prime N ms r = (r < N \<and> (\<exists>j<N. ms ! r ! j = 2))"

lemma has_prime_pcol:
  assumes "shaped N ms" and "has_prime N ms r"
  shows "findPrimeInRow ms r = Some (pcol ms r)" "pcol ms r < N" "ms ! r ! pcol ms r = 2"
proof -
  from assms have r: "r < N" and "findPrimeInRow ms r \<noteq> None"
    using findPrimeInRow_None [OF assms(1), of r] by (auto simp: has_prime_def)
  then obtain pc where pc: "findPrimeInRow ms r = Some pc" by auto
  then show "findPrimeInRow ms r = Some (pcol ms r)" by (simp add: pcol_def)
  from findPrimeInRow_Some [OF assms(1) r pc] pc
  show "pcol ms r < N" "ms ! r ! pcol ms r = 2" by (simp_all add: pcol_def)
qed

text \<open>What the path construction needs of the marks.\<close>

definition aug_ok :: "nat \<Rightarrow> nat list list \<Rightarrow> (nat \<Rightarrow> nat) \<Rightarrow> bool" where
  "aug_ok N ms rk =
     (shaped N ms \<and>
      (\<forall>i<N. \<forall>j<N. \<forall>j'<N. ms ! i ! j = 2 \<and> ms ! i ! j' = 2 \<longrightarrow> j = j') \<and>
      (\<forall>i<N. \<forall>i'<N. \<forall>j<N. ms ! i ! j = 2 \<and> ms ! i' ! j = 1 \<longrightarrow>
          rk i' < rk i \<and> has_prime N ms i'))"

lemma aug_ok_shaped: "aug_ok N ms rk \<Longrightarrow> shaped N ms"
  by (simp add: aug_ok_def)

lemma aug_ok_unique:
  "aug_ok N ms rk \<Longrightarrow> i < N \<Longrightarrow> j < N \<Longrightarrow> j' < N \<Longrightarrow> ms ! i ! j = 2 \<Longrightarrow> ms ! i ! j' = 2
     \<Longrightarrow> j = j'"
  by (simp add: aug_ok_def)

lemma aug_ok_next:
  "aug_ok N ms rk \<Longrightarrow> i < N \<Longrightarrow> i' < N \<Longrightarrow> j < N \<Longrightarrow> ms ! i ! j = 2 \<Longrightarrow> ms ! i' ! j = 1
     \<Longrightarrow> rk i' < rk i \<and> has_prime N ms i'"
  by (simp add: aug_ok_def)

lemma prime_is_pcol:
  assumes "aug_ok N ms rk" and "i < N" and "j < N" and "ms ! i ! j = 2"
  shows "pcol ms i = j"
proof -
  have hp: "has_prime N ms i" using assms by (auto simp: has_prime_def)
  note pc = has_prime_pcol [OF aug_ok_shaped [OF assms(1)] hp]
  from aug_ok_unique [OF assms(1,2) pc(2) assms(3) pc(3) assms(4)] show ?thesis .
qed

lemma exists_chain:
  assumes "aug_ok N ms rk"
  shows "has_prime N ms r \<Longrightarrow>
           \<exists>rs. chain ms r rs \<and> distinct rs \<and> (\<forall>x \<in> set rs. rk x < rk r \<and> has_prime N ms x)"
proof (induction "rk r" arbitrary: r rule: less_induct)
  case less
  note sh = aug_ok_shaped [OF assms]
  note pc = has_prime_pcol [OF sh less.prems]
  have rN: "r < N" using less.prems by (simp add: has_prime_def)
  show ?case
  proof (cases "findStarInCol ms (pcol ms r)")
    case None
    then have "chain ms r []" by simp
    then show ?thesis by (intro exI [of _ "[]"]) simp
  next
    case (Some r')
    from findStarInCol_Some [OF sh pc(2) Some] have r': "r' < N" "ms ! r' ! pcol ms r = 1"
      by simp_all
    from aug_ok_next [OF assms rN r'(1) pc(2,3) r'(2)]
    have lt: "rk r' < rk r" and hp: "has_prime N ms r'" by simp_all
    from less.hyps [OF lt hp] obtain rs where rs: "chain ms r' rs" "distinct rs"
      "\<And>x. x \<in> set rs \<Longrightarrow> rk x < rk r' \<and> has_prime N ms x" by blast
    have "findPrimeInRow ms r' \<noteq> None" using has_prime_pcol(1) [OF sh hp] by simp
    with Some rs(1) have "chain ms r (r' # rs)" by simp
    moreover have "distinct (r' # rs)" using rs(2,3) by auto
    moreover have "\<forall>x \<in> set (r' # rs). rk x < rk r \<and> has_prime N ms x"
    proof
      fix x assume "x \<in> set (r' # rs)"
      then consider "x = r'" | "x \<in> set rs" by auto
      then show "rk x < rk r \<and> has_prime N ms x"
      proof cases
        case 1
        with lt hp show ?thesis by simp
      next
        case 2
        from rs(3) [OF this] lt show ?thesis by simp
      qed
    qed
    ultimately show ?thesis by blast
  qed
qed

lemma tailp_rows: "(a, b) \<in> set (tailp ms r rs) \<Longrightarrow> a \<in> set rs"
  by (induction rs arbitrary: r) auto

lemma chain_closed:
  "chain ms r rs \<Longrightarrow> r0 \<in> set (r # rs) \<Longrightarrow> findStarInCol ms (pcol ms r0) = Some x
     \<Longrightarrow> x \<in> set rs"
  by (induction rs arbitrary: r) auto

lemma chain_pred:
  "chain ms r rs \<Longrightarrow> x \<in> set rs \<Longrightarrow>
     \<exists>r0 \<in> set (r # rs). findStarInCol ms (pcol ms r0) = Some x \<and>
        (x, pcol ms r0) \<in> set (tailp ms r rs)"
proof (induction rs arbitrary: r)
  case Nil
  then show ?case by simp
next
  case (Cons r' rs)
  show ?case
  proof (cases "x = r'")
    case True
    with Cons.prems show ?thesis by auto
  next
    case False
    with Cons.prems have "chain ms r' rs" "x \<in> set rs" by auto
    from Cons.IH [OF this] show ?thesis by auto
  qed
qed

lemma tailp_prime: "x \<in> set rs \<Longrightarrow> (x, pcol ms x) \<in> set (tailp ms r rs)"
  by (induction rs arbitrary: r) auto

lemma tailp_cells:
  "chain ms r rs \<Longrightarrow> (a, b) \<in> set (tailp ms r rs) \<Longrightarrow>
     b = pcol ms a \<or> (\<exists>r0 \<in> set (r # rs). b = pcol ms r0 \<and> findStarInCol ms b = Some a)"
proof (induction rs arbitrary: r)
  case Nil
  then show ?case by simp
next
  case (Cons r' rs)
  from Cons.prems(2) consider "(a, b) = (r', pcol ms r)" | "(a, b) = (r', pcol ms r')"
    | "(a, b) \<in> set (tailp ms r' rs)" by auto
  then show ?case
  proof cases
    case 1
    with Cons.prems(1) show ?thesis by auto
  next
    case 2
    then show ?thesis by auto
  next
    case 3
    from Cons.prems(1) have "chain ms r' rs" by simp
    from Cons.IH [OF this 3] show ?thesis by auto
  qed
qed

lemma distinct_tailp:
  assumes "shaped N ms"
  shows "chain ms r rs \<Longrightarrow> distinct rs \<Longrightarrow> has_prime N ms r \<Longrightarrow> \<forall>x \<in> set rs. has_prime N ms x
     \<Longrightarrow> distinct (tailp ms r rs)"
proof (induction rs arbitrary: r)
  case Nil
  show ?case by simp
next
  case (Cons r' rs)
  have hp': "has_prime N ms r'" using Cons.prems(4) by simp
  note pc = has_prime_pcol [OF assms Cons.prems(3)]
  note pc' = has_prime_pcol [OF assms hp']
  from Cons.prems(1) have star: "findStarInCol ms (pcol ms r) = Some r'" and ch: "chain ms r' rs"
    by simp_all
  from findStarInCol_Some [OF assms pc(2) star] have "ms ! r' ! pcol ms r = 1" by simp
  with pc'(3) have ne: "pcol ms r \<noteq> pcol ms r'" by auto
  have "distinct (tailp ms r' rs)"
    using ch Cons.prems(2,4) hp' by (intro Cons.IH) auto
  moreover have "\<And>b. (r', b) \<notin> set (tailp ms r' rs)"
    using tailp_rows [of r' _ ms r' rs] Cons.prems(2) by auto
  ultimately show ?case using ne by simp
qed

text \<open>Flipping the cells of a list without repetitions.\<close>

lemma flip_cells_nth:
  assumes "shaped N ms" and "distinct cs" and "\<forall>x \<in> set cs. fst x < N \<and> snd x < N"
  shows "shaped N (fold flip_cell cs ms) \<and>
         (\<forall>i<N. \<forall>j<N. fold flip_cell cs ms ! i ! j =
            (if (i, j) \<in> set cs then (if ms ! i ! j = 1 then 0 else 1) else ms ! i ! j))"
  using assms
proof (induction cs arbitrary: ms)
  case Nil
  then show ?case by simp
next
  case (Cons x cs)
  obtain a b where x: "x = (a, b)" by (cases x)
  with Cons.prems have ab: "a < N" "b < N" by auto
  let ?ms = "ms[a := (ms ! a)[b := (if ms ! a ! b = 1 then 0 else 1)]]"
  have fl: "flip_cell x ms = ?ms" using x by (simp add: flip_cell_def)
  have sh: "shaped N ?ms" using Cons.prems(1) by (rule shaped_update)
  have upd: "\<And>i j. i < N \<Longrightarrow> j < N \<Longrightarrow>
      ?ms ! i ! j = (if i = a \<and> j = b then (if ms ! a ! b = 1 then 0 else 1) else ms ! i ! j)"
    using nth_update2 [OF Cons.prems(1) ab] by simp
  from Cons.prems have "distinct cs" "\<forall>x \<in> set cs. fst x < N \<and> snd x < N" by auto
  from Cons.IH [OF sh this]
  have ih: "shaped N (fold flip_cell cs ?ms)"
    "\<And>i j. i < N \<Longrightarrow> j < N \<Longrightarrow> fold flip_cell cs ?ms ! i ! j =
       (if (i, j) \<in> set cs then (if ?ms ! i ! j = 1 then 0 else 1) else ?ms ! i ! j)"
    by simp_all
  have notin: "(a, b) \<notin> set cs" using Cons.prems(2) x by simp
  show ?case
  proof (intro conjI allI impI)
    show "shaped N (fold flip_cell (x # cs) ms)" using ih(1) fl by simp
  next
    fix i j assume ij: "i < N" "j < N"
    show "fold flip_cell (x # cs) ms ! i ! j =
      (if (i, j) \<in> set (x # cs) then (if ms ! i ! j = 1 then 0 else 1) else ms ! i ! j)"
    proof (cases "i = a \<and> j = b")
      case True
      with ih(2) [OF ij] upd [OF ij] notin fl x show ?thesis by simp
    next
      case False
      with ih(2) [OF ij] upd [OF ij] fl x show ?thesis by auto
    qed
  qed
qed

lemma chain_inj:
  "chain ms r rs \<Longrightarrow> distinct (r # rs) \<Longrightarrow> a \<in> set (r # rs) \<Longrightarrow> b \<in> set (r # rs) \<Longrightarrow>
     pcol ms a = pcol ms b \<Longrightarrow> a = b"
proof (induction rs arbitrary: r)
  case Nil
  then show ?case by simp
next
  case (Cons r' rs)
  from Cons.prems(1) have st: "findStarInCol ms (pcol ms r) = Some r'" and ch: "chain ms r' rs"
    by simp_all
  have d: "distinct (r' # rs)" "r' \<notin> set rs" using Cons.prems(2) by simp_all
  have head: "\<And>x. x \<in> set (r' # rs) \<Longrightarrow> pcol ms x = pcol ms r \<Longrightarrow> False"
  proof -
    fix x assume x: "x \<in> set (r' # rs)" "pcol ms x = pcol ms r"
    with st have "findStarInCol ms (pcol ms x) = Some r'" by simp
    from chain_closed [OF ch x(1) this] d(2) show False by simp
  qed
  show ?case
  proof (cases "a = r")
    case True
    show ?thesis
    proof (cases "b = r")
      case True
      with \<open>a = r\<close> show ?thesis by simp
    next
      case False
      with Cons.prems(4) have "b \<in> set (r' # rs)" by simp
      from head [OF this] Cons.prems(5) True show ?thesis by simp
    qed
  next
    case False
    with Cons.prems(3) have a: "a \<in> set (r' # rs)" by simp
    show ?thesis
    proof (cases "b = r")
      case True
      from head [OF a] Cons.prems(5) True show ?thesis by simp
    next
      case False
      with Cons.prems(4) have "b \<in> set (r' # rs)" by simp
      from Cons.IH [OF ch d(1) a this Cons.prems(5)] show ?thesis .
    qed
  qed
qed

text \<open>
  The marks after step 3: in a row of the path the prime has become the only star; every
  other row keeps its stars; no prime is left.
\<close>

lemma augment_cells:
  assumes mk: "marks_ok N M ms" and ag: "aug_ok N ms rk" and hp: "has_prime N ms r"
    and nostar': "\<forall>j<N. ms ! r ! j \<noteq> 1"
    and ch: "chain ms r rs" and d: "distinct (r # rs)"
    and hps': "\<forall>x \<in> set rs. has_prime N ms x"
  defines "ms1 \<equiv> map (map (\<lambda>m. if m = 2 then 0 else m))
                    (fold flip_cell ((r, pcol ms r) # tailp ms r rs) ms)"
  shows "shaped N ms1"
    and "\<And>i j. i < N \<Longrightarrow> j < N \<Longrightarrow>
           ms1 ! i ! j = (if i \<in> set (r # rs) then (if ms ! i ! j = 2 then 1 else 0)
                          else (if ms ! i ! j = 1 then 1 else 0))"
proof -
  let ?path = "(r, pcol ms r) # tailp ms r rs"
  note sh = aug_ok_shaped [OF ag]
  have nostar: "\<And>j. j < N \<Longrightarrow> ms ! r ! j \<noteq> 1" using nostar' by simp
  have hps: "\<And>x. x \<in> set rs \<Longrightarrow> has_prime N ms x" using hps' by simp
  have hpR: "\<And>x. x \<in> set (r # rs) \<Longrightarrow> has_prime N ms x" using hp hps by auto
  have pcR: "\<And>x. x \<in> set (r # rs) \<Longrightarrow> x < N \<and> pcol ms x < N \<and> ms ! x ! pcol ms x = 2"
    using has_prime_pcol [OF sh hpR] hpR by (simp add: has_prime_def)
  have cellkind: "\<And>a b. (a, b) \<in> set (tailp ms r rs) \<Longrightarrow>
      a \<in> set rs \<and> b < N \<and> (ms ! a ! b = 2 \<and> b = pcol ms a \<or> ms ! a ! b = 1)"
  proof -
    fix a b assume ab: "(a, b) \<in> set (tailp ms r rs)"
    then have a: "a \<in> set rs" by (rule tailp_rows)
    from tailp_cells [OF ch ab] consider "b = pcol ms a"
      | r0 where "r0 \<in> set (r # rs)" "b = pcol ms r0" "findStarInCol ms b = Some a" by blast
    then show "a \<in> set rs \<and> b < N \<and> (ms ! a ! b = 2 \<and> b = pcol ms a \<or> ms ! a ! b = 1)"
    proof cases
      case 1
      with a pcR [of a] show ?thesis by simp
    next
      case 2
      with pcR [of r0] have "b < N" by simp
      from findStarInCol_Some [OF sh this 2(3)] a \<open>b < N\<close> show ?thesis by simp
    qed
  qed
  have range: "\<forall>x \<in> set ?path. fst x < N \<and> snd x < N"
  proof
    fix x assume "x \<in> set ?path"
    then consider "x = (r, pcol ms r)" | "x \<in> set (tailp ms r rs)" by auto
    then show "fst x < N \<and> snd x < N"
    proof cases
      case 1
      with pcR [of r] show ?thesis by simp
    next
      case 2
      obtain a b where x: "x = (a, b)" by (cases x)
      with 2 cellkind [of a b] pcR [of a] show ?thesis by simp
    qed
  qed
  have dist: "distinct ?path"
  proof -
    have "distinct (tailp ms r rs)"
      using ch d hp hps by (intro distinct_tailp [OF sh]) auto
    moreover have "(r, pcol ms r) \<notin> set (tailp ms r rs)"
      using tailp_rows [of r "pcol ms r" ms r rs] d by auto
    ultimately show ?thesis by simp
  qed
  note fl = flip_cells_nth [OF sh dist range]
  from fl have shf: "shaped N (fold flip_cell ?path ms)" by simp
  then show "shaped N ms1" by (simp add: ms1_def shaped_def)
  fix i j assume ij: "i < N" "j < N"
  from fl ij have raw: "fold flip_cell ?path ms ! i ! j =
      (if (i, j) \<in> set ?path then (if ms ! i ! j = 1 then 0 else 1) else ms ! i ! j)" by simp
  have ms1: "ms1 ! i ! j = (if fold flip_cell ?path ms ! i ! j = 2 then 0
                             else fold flip_cell ?path ms ! i ! j)"
    using shf ij by (simp add: ms1_def shaped_def)
  have le2: "ms ! i ! j \<le> 2" using mk ij by (rule marks_ok_le2)
  show "ms1 ! i ! j = (if i \<in> set (r # rs) then (if ms ! i ! j = 2 then 1 else 0)
                          else (if ms ! i ! j = 1 then 1 else 0))"
  proof (cases "i \<in> set (r # rs)")
    case False
    have "(i, j) \<notin> set ?path"
    proof
      assume "(i, j) \<in> set ?path"
      then consider "i = r" | "(i, j) \<in> set (tailp ms r rs)" by auto
      then show False
      proof cases
        case 1
        with False show False by simp
      next
        case 2
        from tailp_rows [OF this] False show False by simp
      qed
    qed
    with raw ms1 le2 False show ?thesis by auto
  next
    case True
    note pi = pcR [OF True]
    from le2 consider "ms ! i ! j = 2" | "ms ! i ! j = 1" | "ms ! i ! j = 0" by linarith
    then show ?thesis
    proof cases
      case 1
      from prime_is_pcol [OF ag ij 1] have j: "pcol ms i = j" .
      have "(i, j) \<in> set ?path"
      proof (cases "i = r")
        case True
        with j show ?thesis by simp
      next
        case False
        with True have "i \<in> set rs" by simp
        from tailp_prime [OF this, of ms r] j show ?thesis by simp
      qed
      with raw ms1 1 True show ?thesis by simp
    next
      case 2
      with nostar [OF ij(2)] have "i \<noteq> r" by auto
      with True have "i \<in> set rs" by simp
      from chain_pred [OF ch this] obtain r0 where r0: "r0 \<in> set (r # rs)"
        "findStarInCol ms (pcol ms r0) = Some i" "(i, pcol ms r0) \<in> set (tailp ms r rs)" by blast
      from pcR [OF r0(1)] have "pcol ms r0 < N" by simp
      from findStarInCol_Some [OF sh this r0(2)] have "ms ! i ! pcol ms r0 = 1" by simp
      from marks_ok_row [OF mk ij(1) \<open>pcol ms r0 < N\<close> ij(2) this 2] r0(3)
      have "(i, j) \<in> set ?path" by simp
      with raw ms1 2 True show ?thesis by simp
    next
      case 3
      have "(i, j) \<notin> set ?path"
      proof
        assume "(i, j) \<in> set ?path"
        then consider "(i, j) = (r, pcol ms r)" | "(i, j) \<in> set (tailp ms r rs)" by auto
        then show False
        proof cases
          case 1
          with pcR [of r] 3 show False by simp
        next
          case 2
          from cellkind [OF this] 3 show False by auto
        qed
      qed
      with raw ms1 3 True show ?thesis by simp
    qed
  qed
qed

lemma augment_marks:
  assumes mk: "marks_ok N M ms" and ag: "aug_ok N ms rk" and hp: "has_prime N ms r"
    and nostar': "\<forall>j<N. ms ! r ! j \<noteq> 1"
    and others': "\<forall>i<N. i \<noteq> r \<longrightarrow> has_prime N ms i \<longrightarrow> (\<exists>j<N. ms ! i ! j = 1)"
    and ch: "chain ms r rs" and d: "distinct (r # rs)"
    and hps': "\<forall>x \<in> set rs. has_prime N ms x"
  defines "ms1 \<equiv> map (map (\<lambda>m. if m = 2 then 0 else m))
                    (fold flip_cell ((r, pcol ms r) # tailp ms r rs) ms)"
  shows "marks_ok N M ms1"
    and "\<And>i j. i < N \<Longrightarrow> j < N \<Longrightarrow> ms1 ! i ! j \<noteq> 2"
    and "card (stars N ms1) = Suc (card (stars N ms))"
proof -
  note sh = aug_ok_shaped [OF ag]
  note ac = augment_cells [OF mk ag hp nostar' ch d hps', folded ms1_def]
  have nostar: "\<And>j. j < N \<Longrightarrow> ms ! r ! j \<noteq> 1" using nostar' by simp
  have others: "\<And>i. i < N \<Longrightarrow> i \<noteq> r \<Longrightarrow> has_prime N ms i \<Longrightarrow> \<exists>j<N. ms ! i ! j = 1"
    using others' by simp
  have hps: "\<And>x. x \<in> set rs \<Longrightarrow> has_prime N ms x" using hps' by simp
  have hpR: "\<And>x. x \<in> set (r # rs) \<Longrightarrow> has_prime N ms x" using hp hps by auto
  have pcR: "\<And>x. x \<in> set (r # rs) \<Longrightarrow> x < N \<and> pcol ms x < N \<and> ms ! x ! pcol ms x = 2"
    using has_prime_pcol [OF sh hpR] hpR by (simp add: has_prime_def)
  have new: "\<And>i j. i < N \<Longrightarrow> j < N \<Longrightarrow>
      ms1 ! i ! j = 1 \<longleftrightarrow> (if i \<in> set (r # rs) then ms ! i ! j = 2 else ms ! i ! j = 1)"
    using ac(2) by simp
  show np: "\<And>i j. i < N \<Longrightarrow> j < N \<Longrightarrow> ms1 ! i ! j \<noteq> 2"
    using ac(2) by simp
  show mk1: "marks_ok N M ms1"
  proof (rule marks_okI)
    show "shaped N ms1" by (rule ac(1))
  next
    fix i j assume "i < N" "j < N"
    then show "ms1 ! i ! j \<le> 2" using ac(2) by simp
  next
    fix i j assume a: "i < N" "j < N" "ms1 ! i ! j \<noteq> 0"
    with ac(2) [OF a(1,2)] have "ms ! i ! j \<noteq> 0" by (auto split: if_splits)
    with mk a(1,2) show "M ! i ! j = Fin 0" by (rule marks_ok_zero)
  next
    fix i j j' assume a: "i < N" "j < N" "j' < N" "ms1 ! i ! j = 1" "ms1 ! i ! j' = 1"
    show "j = j'"
    proof (cases "i \<in> set (r # rs)")
      case True
      with a new [OF a(1,2)] new [OF a(1,3)] have "ms ! i ! j = 2" "ms ! i ! j' = 2" by simp_all
      with ag a(1,2,3) show ?thesis by (rule aug_ok_unique)
    next
      case False
      with a new [OF a(1,2)] new [OF a(1,3)] have "ms ! i ! j = 1" "ms ! i ! j' = 1" by simp_all
      with mk a(1,2,3) show ?thesis by (rule marks_ok_row)
    qed
  next
    fix i i' j assume a: "i < N" "i' < N" "j < N" "ms1 ! i ! j = 1" "ms1 ! i' ! j = 1"
    have mixed: "\<And>x y. x < N \<Longrightarrow> y < N \<Longrightarrow> x \<in> set (r # rs) \<Longrightarrow> y \<notin> set (r # rs) \<Longrightarrow>
        ms ! x ! j = 2 \<Longrightarrow> ms ! y ! j = 1 \<Longrightarrow> False"
    proof -
      fix x y assume xy: "x < N" "y < N" "x \<in> set (r # rs)" "y \<notin> set (r # rs)"
        "ms ! x ! j = 2" "ms ! y ! j = 1"
      from prime_is_pcol [OF ag xy(1) a(3) xy(5)] have pj: "pcol ms x = j" .
      have "findStarInCol ms j \<noteq> None"
        using findStarInCol_None [OF sh a(3)] xy(2,6) by blast
      then obtain y' where y': "findStarInCol ms j = Some y'" by auto
      from chain_closed [OF ch xy(3)] y' pj have "y' \<in> set rs" by simp
      moreover from findStarInCol_Some [OF sh a(3) y'] have "y' < N" "ms ! y' ! j = 1" by simp_all
      with marks_ok_col [OF mk xy(2) _ a(3) xy(6)] have "y = y'" by simp
      ultimately show False using xy(4) by simp
    qed
    show "i = i'"
    proof (cases "i \<in> set (r # rs)")
      case True
      with a new [OF a(1,3)] have pi: "ms ! i ! j = 2" by simp
      show ?thesis
      proof (cases "i' \<in> set (r # rs)")
        case True
        with a new [OF a(2,3)] have "ms ! i' ! j = 2" by simp
        from prime_is_pcol [OF ag a(2,3) this] prime_is_pcol [OF ag a(1,3) pi]
        have "pcol ms i = pcol ms i'" by simp
        from chain_inj [OF ch d \<open>i \<in> set (r # rs)\<close> True this] show ?thesis .
      next
        case False
        with a new [OF a(2,3)] have "ms ! i' ! j = 1" by simp
        from mixed [OF a(1,2) True False pi this] show ?thesis ..
      qed
    next
      case False
      with a new [OF a(1,3)] have si: "ms ! i ! j = 1" by simp
      show ?thesis
      proof (cases "i' \<in> set (r # rs)")
        case True
        with a new [OF a(2,3)] have "ms ! i' ! j = 2" by simp
        from mixed [OF a(2,1) True False this si] show ?thesis ..
      next
        case False
        with a new [OF a(2,3)] have "ms ! i' ! j = 1" by simp
        from marks_ok_col [OF mk a(1,2,3) si this] show ?thesis .
      qed
    qed
  qed
  have rows: "fst ` stars N ms1 = insert r (fst ` stars N ms)"
  proof (intro set_eqI iffI)
    fix i assume "i \<in> fst ` stars N ms1"
    then obtain j where ij: "i < N" "j < N" "ms1 ! i ! j = 1" by (auto simp: stars_def)
    show "i \<in> insert r (fst ` stars N ms)"
    proof (cases "i = r")
      case True
      then show ?thesis by simp
    next
      case False
      have "\<exists>j'<N. ms ! i ! j' = 1"
      proof (cases "i \<in> set (r # rs)")
        case True
        from others [OF ij(1) False hpR [OF True]] show ?thesis .
      next
        case False
        with ij new [OF ij(1,2)] show ?thesis by auto
      qed
      then obtain j' where "j' < N" "ms ! i ! j' = 1" by blast
      with ij(1) have "(i, j') \<in> stars N ms" by (simp add: stars_def)
      then show ?thesis by (metis fst_conv image_eqI insertI2)
    qed
  next
    fix i assume "i \<in> insert r (fst ` stars N ms)"
    then consider "i = r" | j where "i < N" "j < N" "ms ! i ! j = 1" by (auto simp: stars_def)
    then have "\<exists>j. i < N \<and> j < N \<and> ms1 ! i ! j = 1"
    proof cases
      case 1
      with pcR [of r] new [of r "pcol ms r"] show ?thesis by auto
    next
      case 2
      show ?thesis
      proof (cases "i \<in> set (r # rs)")
        case True
        with pcR [OF True] new [of i "pcol ms i"] show ?thesis by auto
      next
        case False
        with 2 new [OF 2(1,2)] show ?thesis by auto
      qed
    qed
    then obtain j where "(i, j) \<in> stars N ms1" by (auto simp: stars_def)
    then show "i \<in> fst ` stars N ms1" by (metis fst_conv image_eqI)
  qed
  have "r \<notin> fst ` stars N ms" using nostar by (auto simp: stars_def)
  then have "card (fst ` stars N ms1) = Suc (card (fst ` stars N ms))"
    using rows by simp
  then show "card (stars N ms1) = Suc (card (stars N ms))"
    using card_image [OF inj_on_fst_stars [OF mk1]] card_image [OF inj_on_fst_stars [OF mk]]
    by simp
qed

text \<open>The primed zero has no star in its row: steps 2 and 3 together add one star.\<close>

lemma hstep_2_augment:
  fixes s :: "'a::linordered_ab_group_add hstate"
  assumes inv: "hinv m c N s" and st: "step s = 2"
    and z: "findUncoveredZero (matrix s) (rowCover s) (colCover s) = Some (zr, zc)"
    and sr: "findStarInRow ((masks s)[zr := (masks s ! zr)[zc := 2]]) zr = None"
  shows "\<exists>s3 s1. hstep s = Some (Inr s3) \<and> step s3 = 3 \<and> hstep s3 = Some (Inr s1) \<and>
           step s1 = 1 \<and> hinv m c N s1 \<and>
           card (stars N (masks s1)) = Suc (card (stars N (masks s)))"
proof -
  let ?ms = "(masks s)[zr := (masks s ! zr)[zc := 2]]"
  let ?s3 = "s\<lparr>masks := ?ms, pathStart := Some (zr, zc), step := 3\<rparr>"
  note p = hinv_parts [OF inv]
  note q = prime_zero [OF inv st z]
  have cov: "cover_ok N (masks s) (rowCover s) (colCover s)"
    using inv st by (intro hinv_cover) auto
  have lenM: "length (matrix s) = N" using cells_ok_shaped [OF p(3)] by (simp add: shaped_def)
  have step2: "hstep s = Some (Inr ?s3)"
    using st z sr by (simp add: hstep_def Let_def)
  have sh: "shaped N ?ms" using q(8) by (rule marks_ok_shaped)
  from q(9) obtain rk :: "nat \<Rightarrow> nat" where
    rk: "\<And>i i' j. i < N \<Longrightarrow> i' < N \<Longrightarrow> j < N \<Longrightarrow> ?ms ! i ! j = 2 \<Longrightarrow> ?ms ! i' ! j = 1
           \<Longrightarrow> rk i' < rk i" by blast
  have old_prime: "\<And>i j. i < N \<Longrightarrow> j < N \<Longrightarrow> \<not> (i = zr \<and> j = zc) \<Longrightarrow> ?ms ! i ! j = 2
      \<Longrightarrow> masks s ! i ! j = 2"
    using q(5) by (auto split: if_splits)
  have keep_prime: "\<And>i j. i < N \<Longrightarrow> j < N \<Longrightarrow> masks s ! i ! j = 2 \<Longrightarrow> ?ms ! i ! j = 2"
    using q(5) by simp
  have uncol: "\<And>i j. i < N \<Longrightarrow> j < N \<Longrightarrow> ?ms ! i ! j = 2 \<Longrightarrow> \<not> colCover s ! j"
  proof -
    fix i j assume a: "i < N" "j < N" "?ms ! i ! j = 2"
    show "\<not> colCover s ! j"
    proof (cases "i = zr \<and> j = zc")
      case True
      with q(4) show ?thesis by simp
    next
      case False
      from cover_ok_prime_col [OF cov a(1,2) old_prime [OF a(1,2) False a(3)]] show ?thesis .
    qed
  qed
  have ag: "aug_ok N ?ms rk"
    unfolding aug_ok_def
  proof (intro conjI allI impI)
    show "shaped N ?ms" by (rule sh)
  next
    fix i j j' assume a: "i < N" "j < N" "j' < N" "?ms ! i ! j = 2 \<and> ?ms ! i ! j' = 2"
    show "j = j'"
    proof (cases "i = zr")
      case True
      with a q(5) [OF a(1,2)] q(5) [OF a(1,3)] q(7) [OF a(2)] q(7) [OF a(3)]
      show ?thesis by (cases "j = zc"; cases "j' = zc") simp_all
    next
      case False
      with a q(5) [OF a(1,2)] q(5) [OF a(1,3)]
      have "masks s ! i ! j = 2" "masks s ! i ! j' = 2" by simp_all
      with cov a(1,2,3) show ?thesis by (rule cover_ok_prime_unique)
    qed
  next
    fix i i' j assume a: "i < N" "i' < N" "j < N" "?ms ! i ! j = 2 \<and> ?ms ! i' ! j = 1"
    then show "rk i' < rk i" using rk by blast
  next
    fix i i' j assume a: "i < N" "i' < N" "j < N" "?ms ! i ! j = 2 \<and> ?ms ! i' ! j = 1"
    then have star: "masks s ! i' ! j = 1" using q(6) by simp
    from a uncol [OF a(1,3)] have "\<not> colCover s ! j" by simp
    with cover_ok_star [OF cov a(2,3) star] have "rowCover s ! i'" by simp
    with cover_ok_row [OF cov a(2)] obtain j' where j': "j' < N" "masks s ! i' ! j' = 2" by blast
    from keep_prime [OF a(2) this] j'(1) a(2) show "has_prime N ?ms i'"
      by (auto simp: has_prime_def)
  qed
  have zp: "?ms ! zr ! zc = 2" using q(5) [OF q(1,2)] by simp
  then have hp: "has_prime N ?ms zr" using q(1,2) by (auto simp: has_prime_def)
  have pz: "pcol ?ms zr = zc" using prime_is_pcol [OF ag q(1,2) zp] .
  have nostar: "\<forall>j<N. ?ms ! zr ! j \<noteq> 1"
    using findStarInRow_None [OF sh q(1)] sr by simp
  have others: "\<forall>i<N. i \<noteq> zr \<longrightarrow> has_prime N ?ms i \<longrightarrow> (\<exists>j<N. ?ms ! i ! j = 1)"
  proof (intro allI impI)
    fix i assume a: "i < N" "i \<noteq> zr" "has_prime N ?ms i"
    then obtain j where j: "j < N" "?ms ! i ! j = 2" by (auto simp: has_prime_def)
    with a old_prime [OF a(1) j(1)] have "masks s ! i ! j = 2" by simp
    from cover_ok_prime_star [OF cov a(1) j(1) this] obtain j' where "j' < N" "masks s ! i ! j' = 1"
      by blast
    with q(6) [OF a(1)] show "\<exists>j<N. ?ms ! i ! j = 1" by blast
  qed
  from exists_chain [OF ag hp] obtain rs where rs: "chain ?ms zr rs" "distinct rs"
    "\<forall>x \<in> set rs. rk x < rk zr \<and> has_prime N ?ms x" by blast
  have d: "distinct (zr # rs)" using rs(2,3) by auto
  have hps: "\<forall>x \<in> set rs. has_prime N ?ms x" using rs(3) by simp
  let ?path = "(zr, pcol ?ms zr) # tailp ?ms zr rs"
  let ?ms1 = "map (map (\<lambda>m. if m = 2 then 0 else m)) (fold flip_cell ?path ?ms)"
  note am = augment_marks [OF q(8) ag hp nostar others rs(1) d hps]
  have path: "findAugmentingPath ?ms (zr, zc) = Some (Inr ?path)"
    using augmentLoop_chain [OF rs(1), of "[(zr, zc)]"] pz by (simp add: findAugmentingPath_def)
  let ?s1 = "?s3\<lparr>masks := ?ms1, rowCover := replicate N False,
                 colCover := replicate N False, step := 1\<rparr>"
  have step3: "hstep ?s3 = Some (Inr ?s1)"
    using path lenM by (simp add: hstep_def Let_def)
  have "hinv m c N ?s1"
    using p am(1,2) by (simp add: hinv_def)
  moreover have "card (stars N ?ms1) = Suc (card (stars N (masks s)))"
    using am(3) stars_cong [of N ?ms "masks s"] q(6) by simp
  ultimately show ?thesis
    using step2 step3 by (intro exI [of _ ?s3] exI [of _ ?s1]) simp
qed

subsection \<open>The loop reaches step 0\<close>

definition phase :: "'a::zero hstate \<Rightarrow> nat" where
  "phase s =
     (if step s = 1 then 4
      else if step s = 6 then 2
      else if findUncoveredZero (matrix s) (rowCover s) (colCover s) = None then 3
      else 1)"

definition hmeasure :: "nat \<Rightarrow> 'a::zero hstate \<Rightarrow> nat \<times> nat \<times> nat" where
  "hmeasure N s = (N - card (stars N (masks s)), length (filter Not (rowCover s)), phase s)"

lemma hloop_step:
  "step s \<noteq> 0 \<Longrightarrow> hstep s = Some (Inr s') \<Longrightarrow> hloop s = hloop s'"
  by (subst hloop.simps) simp

lemma hloop_stop: "step s = 0 \<Longrightarrow> hloop s = Some (Inr s)"
  by (subst hloop.simps) simp

lemma hloop_terminates:
  fixes s :: "'a::linordered_ab_group_add hstate"
  assumes "hinv m c N s"
  shows "\<exists>s'. hloop s = Some (Inr s') \<and> hfinal m c N s'"
proof -
  have wf: "wf (inv_image (less_than <*lex*> less_than <*lex*> less_than)
                 (hmeasure N :: 'a hstate \<Rightarrow> nat \<times> nat \<times> nat))"
    by (intro wf_inv_image wf_lex_prod wf_less_than)
  show ?thesis
    using assms
proof (induction s rule: wf_induct_rule [OF wf, case_names less])
  case (less s)
  note inv = less.prems
  note p = hinv_parts [OF inv]
  have lenM: "length (matrix s) = N" using cells_ok_shaped [OF p(3)] by (simp add: shaped_def)
  have le: "card (stars N (masks s)) \<le> N"
    using card_stars_le [OF p(4,3)] p(1) by simp
  have IH: "\<And>t :: 'a hstate. hinv m c N t \<Longrightarrow>
      N - card (stars N (masks t)) < N - card (stars N (masks s)) \<or>
      N - card (stars N (masks t)) = N - card (stars N (masks s)) \<and>
        (length (filter Not (rowCover t)) < length (filter Not (rowCover s)) \<or>
         length (filter Not (rowCover t)) = length (filter Not (rowCover s)) \<and> phase t < phase s)
      \<Longrightarrow> \<exists>s'. hloop t = Some (Inr s') \<and> hfinal m c N s'"
  proof -
    fix t :: "'a hstate"
    assume a: "hinv m c N t"
      "N - card (stars N (masks t)) < N - card (stars N (masks s)) \<or>
       N - card (stars N (masks t)) = N - card (stars N (masks s)) \<and>
        (length (filter Not (rowCover t)) < length (filter Not (rowCover s)) \<or>
         length (filter Not (rowCover t)) = length (filter Not (rowCover s)) \<and> phase t < phase s)"
    show "\<exists>s'. hloop t = Some (Inr s') \<and> hfinal m c N s'"
      by (rule less.IH) (use a in \<open>simp_all add: hmeasure_def\<close>)
  qed
  from inv consider (one) "step s = 1" | (two) "step s = 2" | (six) "step s = 6" by (auto simp: hinv_def)
  then show ?case
  proof cases
    case one
    from hstep_1 [OF inv one lenM] obtain t where t: "hstep s = Some (Inr t)"
      "masks t = masks s" "rowCover t = rowCover s"
      "step t = 0 \<and> hfinal m c N t \<or> step t = 2 \<and> hinv m c N t" by blast
    have eq: "hloop s = hloop t" using one t(1) by (intro hloop_step) simp_all
    from t(4) show ?thesis
    proof
      assume "step t = 0 \<and> hfinal m c N t"
      with eq hloop_stop [of t] show ?thesis by auto
    next
      assume a: "step t = 2 \<and> hinv m c N t"
      have "phase t < phase s" using one a by (simp add: phase_def)
      with IH [of t] a t(2,3) eq show ?thesis by simp
    qed
  next
    case six
    from hstep_6 [OF inv six lenM] obtain t where t: "hstep s = Some (Inr t)"
      "masks t = masks s" "rowCover t = rowCover s"
      "step t = 0 \<and> hfinal m c N t \<or> step t = 2 \<and> hinv m c N t \<and>
         findUncoveredZero (matrix t) (rowCover t) (colCover t) \<noteq> None" by blast
    have eq: "hloop s = hloop t" using six t(1) by (intro hloop_step) simp_all
    from t(4) show ?thesis
    proof
      assume "step t = 0 \<and> hfinal m c N t"
      with eq hloop_stop [of t] show ?thesis by auto
    next
      assume a: "step t = 2 \<and> hinv m c N t \<and>
         findUncoveredZero (matrix t) (rowCover t) (colCover t) \<noteq> None"
      have "phase t < phase s" using six a by (simp add: phase_def)
      with IH [of t] a t(2,3) eq show ?thesis by simp
    qed
  next
    case two
    show ?thesis
    proof (cases "findUncoveredZero (matrix s) (rowCover s) (colCover s)")
      case None
      from hstep_2_none [OF inv two None]
      have t: "hstep s = Some (Inr (s\<lparr>step := 6\<rparr>))" "hinv m c N (s\<lparr>step := 6\<rparr>)" by simp_all
      have eq: "hloop s = hloop (s\<lparr>step := 6\<rparr>)" using two t(1) by (intro hloop_step) simp_all
      have "phase (s\<lparr>step := 6\<rparr>) < phase s" using two None by (simp add: phase_def)
      with IH [OF t(2)] eq show ?thesis by simp
    next
      case (Some z)
      obtain zr zc where z: "z = (zr, zc)" by (cases z)
      show ?thesis
      proof (cases "findStarInRow ((masks s)[zr := (masks s ! zr)[zc := 2]]) zr")
        case (Some starCol)
        from hstep_2_cover [OF inv two \<open>findUncoveredZero (matrix s) (rowCover s) (colCover s) = Some z\<close> [unfolded z] Some]
        obtain t where t: "hstep s = Some (Inr t)" "step t = 2" "hinv m c N t"
          "stars N (masks t) = stars N (masks s)"
          "length (filter Not (rowCover t)) < length (filter Not (rowCover s))" by blast
        have eq: "hloop s = hloop t" using two t(1) by (intro hloop_step) simp_all
        from IH [OF t(3)] t(4,5) eq show ?thesis by simp
      next
        case None
        from hstep_2_augment [OF inv two \<open>findUncoveredZero (matrix s) (rowCover s) (colCover s) = Some z\<close> [unfolded z] None]
        obtain s3 t where t: "hstep s = Some (Inr s3)" "step s3 = 3" "hstep s3 = Some (Inr t)"
          "step t = 1" "hinv m c N t"
          "card (stars N (masks t)) = Suc (card (stars N (masks s)))" by blast
        have "hloop s = hloop s3" using two t(1) by (intro hloop_step) simp_all
        also have "\<dots> = hloop t" using t(2,3) by (intro hloop_step) simp_all
        finally have eq: "hloop s = hloop t" .
        have "card (stars N (masks t)) \<le> N"
          using card_stars_le [OF hinv_parts(4,3) [OF t(5)]] p(1) by simp
        with t(6) have "N - card (stars N (masks t)) < N - card (stars N (masks s))" by simp
        with IH [OF t(5)] eq show ?thesis by simp
      qed
    qed
  qed
qed
qed

subsection \<open>The state on entry and the extraction of the result\<close>

lemma hinit_inv:
  fixes cm :: "'a::linordered_ab_group_add list list"
  assumes "rectangular cm"
  shows "hinv (length cm) (ncols cm) (max (length cm) (ncols cm)) (hinit cm)"
proof -
  let ?N = "max (length cm) (ncols cm)"
  let ?M = "subtract_col_minima (subtract_row_minima (pad cm))"
  have ck: "cells_ok (length cm) (ncols cm) ?N ?M"
    by (intro subtract_col_minima_ok subtract_row_minima_ok pad_ok assms)
  then have len: "length ?M = ?N" using cells_ok_shaped [OF ck] by (simp add: shaped_def)
  note st = initial_stars_ok [OF len]
  show ?thesis
    unfolding hinv_def hinit_def Let_def using ck st len by simp
qed

lemma collect_fold:
  "fold (\<lambda>(i, j) out.
           if ms ! i ! j = 1
           then \<lparr>assignments = assignments out @ [\<lparr>driver = i, passenger = j\<rparr>],
                 totalCost = num_plus (totalCost out) (entry cm i j)\<rparr>
           else out) cs \<lparr>assignments = as, totalCost = t\<rparr>
   = \<lparr>assignments = as @ map (\<lambda>(i, j). \<lparr>driver = i, passenger = j\<rparr>)
                           (filter (\<lambda>(i, j). ms ! i ! j = 1) cs),
      totalCost = fold (\<lambda>(i, j) t. num_plus t (entry cm i j))
                    (filter (\<lambda>(i, j). ms ! i ! j = 1) cs) t\<rparr>"
  by (induction cs arbitrary: as t) (auto split: prod.splits)

lemma fold_entry_sum:
  fixes cm :: "'a::comm_monoid_add list list"
  assumes "rectangular cm" and "\<forall>x \<in> set cs. fst x < length cm \<and> snd x < ncols cm"
  shows "fold (\<lambda>(i, j) t. num_plus t (entry cm i j)) cs (Fin t0)
           = Fin (t0 + sum_list (map (\<lambda>(i, j). cm ! i ! j) cs))"
  using assms(2)
proof (induction cs arbitrary: t0)
  case Nil
  show ?case by simp
next
  case (Cons x cs)
  obtain i j where x: "x = (i, j)" by (cases x)
  with Cons.prems have "i < length cm" "j < ncols cm" by auto
  then have "entry cm i j = Fin (cm ! i ! j)"
    using ncols_rectangular [OF assms(1), of i] by (simp add: entry_def)
  with Cons x show ?case by (simp add: add.assoc)
qed

lemma starred_cells:
  assumes "marks_ok N M ms" and "cells_ok m c N M" and "m \<le> N" and "c \<le> N"
  shows "set (filter (\<lambda>(i, j). ms ! i ! j = 1) (cells m c)) = stars N ms"
proof (intro set_eqI iffI)
  fix x assume "x \<in> set (filter (\<lambda>(i, j). ms ! i ! j = 1) (cells m c))"
  then show "x \<in> stars N ms" using assms(3,4) by (auto simp: stars_def)
next
  fix x assume x: "x \<in> stars N ms"
  obtain i j where ij: "x = (i, j)" by (cases x)
  with x have a: "i < N" "j < N" "ms ! i ! j = 1" by (simp_all add: stars_def)
  from stars_in_bounds [OF assms(1,2) a] ij a(3)
  show "x \<in> set (filter (\<lambda>(i, j). ms ! i ! j = 1) (cells m c))" by simp
qed

text \<open>
  What the solver returns when the loop stops in a state with as many stars as the
  smaller side of the input.
\<close>

lemma collect_assignments_final:
  fixes cm :: "'a::linordered_ab_group_add list list"
  assumes rect: "rectangular cm"
    and mk: "marks_ok N M ms" and ck: "cells_ok (length cm) (ncols cm) N M"
    and mN: "length cm \<le> N" and cN: "ncols cm \<le> N"
    and cnt: "card (stars N ms) = min (length cm) (ncols cm)"
  defines "out \<equiv> collect_assignments cm ms"
  shows "length (assignments out) = min (length cm) (ncols cm)"
    and "distinct (map driver (assignments out))"
    and "distinct (map passenger (assignments out))"
    and "\<forall>a \<in> set (assignments out). driver a < length cm \<and> passenger a < ncols cm"
    and "totalCost out = Fin (\<Sum>a \<leftarrow> assignments out. cm ! driver a ! passenger a)"
proof -
  let ?cs = "filter (\<lambda>(i, j). ms ! i ! j = 1) (cells (length cm) (ncols cm))"
  have out: "out = \<lparr>assignments = map (\<lambda>(i, j). \<lparr>driver = i, passenger = j\<rparr>) ?cs,
                    totalCost = fold (\<lambda>(i, j) t. num_plus t (entry cm i j)) ?cs (Fin 0)\<rparr>"
    unfolding out_def collect_assignments_def collect_fold by simp
  have set_cs: "set ?cs = stars N ms" using mk ck mN cN by (rule starred_cells)
  have dist: "distinct ?cs" using distinct_cells by (rule distinct_filter)
  have "length ?cs = card (stars N ms)"
    using distinct_card [OF dist] set_cs by simp
  then show "length (assignments out) = min (length cm) (ncols cm)"
    using cnt out by simp
  have drv: "map driver (assignments out) = map fst ?cs"
    and pas: "map passenger (assignments out) = map snd ?cs"
    unfolding out by (simp_all add: case_prod_unfold comp_def)
  show "distinct (map driver (assignments out))"
    unfolding drv using dist inj_on_fst_stars [OF mk] set_cs by (simp add: distinct_map)
  show "distinct (map passenger (assignments out))"
    unfolding pas using dist inj_on_snd_stars [OF mk] set_cs by (simp add: distinct_map)
  have inb: "\<forall>x \<in> set ?cs. fst x < length cm \<and> snd x < ncols cm" by auto
  then show "\<forall>a \<in> set (assignments out). driver a < length cm \<and> passenger a < ncols cm"
    unfolding out by auto
  have "(\<Sum>a \<leftarrow> assignments out. cm ! driver a ! passenger a)
          = sum_list (map (\<lambda>(i, j). cm ! i ! j) ?cs)"
    unfolding out by (simp add: comp_def case_prod_unfold)
  then show "totalCost out = Fin (\<Sum>a \<leftarrow> assignments out. cm ! driver a ! passenger a)"
    using fold_entry_sum [OF rect inb, of 0] out by simp
qed

lemma hungarian_result:
  fixes cm :: "'a::linordered_ab_group_add list list"
  assumes "rectangular cm"
  shows "\<exists>s'. hloop (hinit cm) = Some (Inr s') \<and>
              hfinal (length cm) (ncols cm) (max (length cm) (ncols cm)) s' \<and>
              hungarian cm = Some (Inr (collect_assignments cm (masks s')))"
proof -
  from hloop_terminates [OF hinit_inv [OF assms]] obtain s' where
    "hloop (hinit cm) = Some (Inr s')"
    "hfinal (length cm) (ncols cm) (max (length cm) (ncols cm)) s'" by blast
  then show ?thesis by (intro exI [of _ s']) (simp add: hungarian_def)
qed

subsection \<open>Feasibility, termination and empty inputs\<close>

text \<open>
  C2.  For every rectangular \<open>m \<times> n\<close> matrix of finite costs (of either sign) the solver
  returns a result; its assignment list has exactly \<open>min m n\<close> entries, all inside the
  bounds of the input, no driver index occurs twice, no passenger index occurs twice, and
  the returned total cost is the sum of the entries of the original matrix at the assigned
  cells.
\<close>

theorem hungarian_feasible:
  fixes cm :: "'a::linordered_ab_group_add list list"
  assumes "rectangular cm"
  shows "\<exists>out. hungarian cm = Some (Inr out) \<and>
           length (assignments out) = min (length cm) (ncols cm) \<and>
           distinct (map driver (assignments out)) \<and>
           distinct (map passenger (assignments out)) \<and>
           (\<forall>a \<in> set (assignments out). driver a < length cm \<and> passenger a < ncols cm) \<and>
           totalCost out = Fin (\<Sum>a \<leftarrow> assignments out. cm ! driver a ! passenger a)"
proof -
  from hungarian_result [OF assms] obtain s' :: "'a hstate" where s':
    "hfinal (length cm) (ncols cm) (max (length cm) (ncols cm)) s'"
    "hungarian cm = Some (Inr (collect_assignments cm (masks s')))" by blast
  from s'(1) have f: "marks_ok (max (length cm) (ncols cm)) (matrix s') (masks s')"
    "cells_ok (length cm) (ncols cm) (max (length cm) (ncols cm)) (matrix s')"
    "card (stars (max (length cm) (ncols cm)) (masks s')) = min (length cm) (ncols cm)"
    by (simp_all add: hfinal_def)
  have "length cm \<le> max (length cm) (ncols cm)" "ncols cm \<le> max (length cm) (ncols cm)"
    by simp_all
  note c = collect_assignments_final [OF assms f(1,2) this f(3)]
  show ?thesis
    using s'(2) c by (intro exI [of _ "collect_assignments cm (masks s')"]) simp
qed

theorem hungarian_feasible_witness:
  "rectangular [[2, 1 :: int], [3, 5]] \<and>
   (\<exists>out. hungarian [[2, 1 :: int], [3, 5]] = Some (Inr out) \<and>
           length (assignments out) = 2 \<and>
           distinct (map driver (assignments out)) \<and>
           distinct (map passenger (assignments out)) \<and>
           totalCost out = Fin (\<Sum>a \<leftarrow> assignments out. [[2, 1 :: int], [3, 5]] ! driver a ! passenger a))"
proof -
  have r: "rectangular [[2, 1 :: int], [3, 5]]" by (simp add: rectangular_def ncols_def)
  from hungarian_feasible [OF r] obtain out where
    "hungarian [[2, 1 :: int], [3, 5]] = Some (Inr out)"
    "length (assignments out) = min (length [[2, 1 :: int], [3, 5]]) (ncols [[2, 1 :: int], [3, 5]])"
    "distinct (map driver (assignments out))"
    "distinct (map passenger (assignments out))"
    "totalCost out = Fin (\<Sum>a \<leftarrow> assignments out. [[2, 1 :: int], [3, 5]] ! driver a ! passenger a)"
    by blast
  then show ?thesis using r by (intro conjI exI [of _ out]) (simp_all add: ncols_def)
qed

text \<open>
  C5.  For every rectangular matrix of finite costs the loop over the steps 1, 2, 3 and 6
  (with the inner loop of \<open>findAugmentingPath\<close>) ends: it reaches a state with step 0, in which
  either each of the \<open>N\<close> columns is covered and holds a star, or no finite uncovered value
  remains; every star sits on a zero.
\<close>

theorem hungarian_loop_terminates:
  fixes cm :: "'a::linordered_ab_group_add list list"
  assumes "rectangular cm"
  shows "\<exists>s'. hloop (hinit cm) = Some (Inr s') \<and> step s' = 0 \<and>
           length (matrix s') = max (length cm) (ncols cm) \<and>
           (list_all (\<lambda>j. colCover s' ! j \<and> list_ex (\<lambda>r. r ! j = 1) (masks s'))
              [0..<length (matrix s')] \<or>
            \<not> isFinite (findMinUncoveredValue (matrix s') (rowCover s') (colCover s'))) \<and>
           list_all (\<lambda>(i, j). masks s' ! i ! j = 1 \<longrightarrow> matrix s' ! i ! j = Fin 0)
              (cells (length (matrix s')) (length (matrix s')))"
proof -
  let ?N = "max (length cm) (ncols cm)"
  from hungarian_result [OF assms] obtain s' where s':
    "hloop (hinit cm) = Some (Inr s')" "hfinal (length cm) (ncols cm) ?N s'" by blast
  from s'(2) have f: "step s' = 0" "marks_ok ?N (matrix s') (masks s')"
    "cells_ok (length cm) (ncols cm) ?N (matrix s')"
    "list_all (\<lambda>j. colCover s' ! j \<and> list_ex (\<lambda>r. r ! j = 1) (masks s')) [0..<?N] \<or>
     \<not> isFinite (findMinUncoveredValue (matrix s') (rowCover s') (colCover s'))"
    by (simp_all add: hfinal_def)
  have len: "length (matrix s') = ?N" using cells_ok_shaped [OF f(3)] by (simp add: shaped_def)
  have "list_all (\<lambda>(i, j). masks s' ! i ! j = 1 \<longrightarrow> matrix s' ! i ! j = Fin 0) (cells ?N ?N)"
    using marks_ok_zero [OF f(2)] by (auto simp: list_all_iff)
  with s'(1) f(1,4) len show ?thesis by (intro exI [of _ s']) simp
qed

theorem hungarian_loop_terminates_witness:
  "rectangular [[2, 1 :: int]] \<and>
   (\<exists>s'. hloop (hinit [[2, 1 :: int]]) = Some (Inr s') \<and> step s' = 0 \<and>
      \<not> isFinite (findMinUncoveredValue (matrix s') (rowCover s') (colCover s')))"
proof -
  have r: "rectangular [[2, 1 :: int]]" by (simp add: rectangular_def ncols_def)
  from hungarian_loop_terminates [OF r] obtain s' where s':
    "hloop (hinit [[2, 1 :: int]]) = Some (Inr s')" "step s' = 0" by blast
  have "hloop (hinit [[2, 1 :: int]]) =
      Some (Inr \<lparr>matrix = [[Fin 0, Fin 0], [Inf, Inf]], masks = [[1, 2], [0, 0]],
                 rowCover = [True, False], colCover = [False, False],
                 pathStart = None, step = 0\<rparr>)"
    by code_simp
  with s'(1) have "\<not> isFinite (findMinUncoveredValue (matrix s') (rowCover s') (colCover s'))"
    by (auto simp: findMinUncoveredValue_def)
  with r s' show ?thesis by blast
qed

text \<open>
  C8.  An input matrix with no rows, or whose rows are all empty, makes the solver return
  no assignment and total cost 0.  \<open>buildCostMatrix\<close> returns no row and no pair for an
  empty driver list, and one empty row per driver (a matrix with zero columns) and no pair
  for an empty passenger list.
\<close>

theorem empty_inputs:
  fixes cm :: "'a::linordered_ab_group_add list list"
  shows "((\<forall>row \<in> set cm. row = []) \<longrightarrow>
            hungarian cm = Some (Inr \<lparr>assignments = [], totalCost = Fin 0\<rparr>)) \<and>
         buildCostMatrix [] passengers options = ([], []) \<and>
         buildCostMatrix drivers [] options = (replicate (length drivers) [], [])"
proof (intro conjI impI)
  assume e: "\<forall>row \<in> set cm. row = []"
  then have nc: "ncols cm = 0" by (cases cm) (simp_all add: ncols_def)
  with e have "rectangular cm" by (simp add: rectangular_def)
  from hungarian_result [OF this] obtain s' :: "'a hstate" where
    "hungarian cm = Some (Inr (collect_assignments cm (masks s')))" by blast
  moreover have "cells (length cm) 0 = []" by (simp add: cells_def)
  ultimately show "hungarian cm = Some (Inr \<lparr>assignments = [], totalCost = Fin 0\<rparr>)"
    using nc by (simp add: collect_assignments_def)
next
  show "buildCostMatrix [] passengers options = ([], [])"
    by (simp add: buildCostMatrix_def Let_def)
next
  show "buildCostMatrix drivers [] options = (replicate (length drivers) [], [])"
    by (simp add: buildCostMatrix_def Let_def map_replicate_const)
qed

theorem empty_inputs_witness:
  "list_all (\<lambda>row. row = []) [[], [] :: int list] \<and>
   hungarian [[], [] :: int list] = Some (Inr \<lparr>assignments = [], totalCost = Fin 0\<rparr>) \<and>
   hungarian ([] :: int list list) = Some (Inr \<lparr>assignments = [], totalCost = Fin 0\<rparr>)"
proof -
  have a: "\<forall>row \<in> set [[], [] :: int list]. row = []" by simp
  have b: "\<forall>row \<in> set ([] :: int list list). row = []" by simp
  from empty_inputs [of "[[], [] :: int list]"] a
  have "hungarian [[], [] :: int list] = Some (Inr \<lparr>assignments = [], totalCost = Fin 0\<rparr>)"
    by blast
  moreover from empty_inputs [of "[] :: int list list"] b
  have "hungarian ([] :: int list list) = Some (Inr \<lparr>assignments = [], totalCost = Fin 0\<rparr>)"
    by blast
  ultimately show ?thesis by simp
qed

section \<open>Connectivity\<close>

text \<open>
  \<open>econn E\<close> relates two ids when a chain of pairs of \<open>E\<close>, used in either direction, leads
  from one to the other: the components of the undirected graph with edge set \<open>E\<close>.
\<close>

definition econn :: "('a \<times> 'a) set \<Rightarrow> ('a \<times> 'a) set" where
  "econn E = (E \<union> E\<inverse>)\<^sup>*"

lemma econn_refl [simp]: "(x, x) \<in> econn E"
  by (simp add: econn_def)

lemma econn_sym: "(x, y) \<in> econn E \<Longrightarrow> (y, x) \<in> econn E"
proof -
  have "sym ((E \<union> E\<inverse>)\<^sup>*)" by (intro sym_rtrancl) (auto simp: sym_def)
  then show "(x, y) \<in> econn E \<Longrightarrow> (y, x) \<in> econn E" by (simp add: econn_def sym_def)
qed

lemma econn_trans: "(x, y) \<in> econn E \<Longrightarrow> (y, z) \<in> econn E \<Longrightarrow> (x, z) \<in> econn E"
  by (simp add: econn_def)

lemma econn_base: "(x, y) \<in> E \<Longrightarrow> (x, y) \<in> econn E"
  by (auto simp: econn_def)

lemma econn_mono: "E \<subseteq> E' \<Longrightarrow> econn E \<subseteq> econn E'"
  unfolding econn_def by (intro rtrancl_mono) auto

lemma econn_least:
  assumes "E \<subseteq> Q" and "\<And>x. (x, x) \<in> Q" and "\<And>x y. (x, y) \<in> Q \<Longrightarrow> (y, x) \<in> Q"
    and "\<And>x y z. (x, y) \<in> Q \<Longrightarrow> (y, z) \<in> Q \<Longrightarrow> (x, z) \<in> Q"
  shows "econn E \<subseteq> Q"
proof
  fix p assume "p \<in> econn E"
  then obtain x y where p: "p = (x, y)" and "(x, y) \<in> (E \<union> E\<inverse>)\<^sup>*"
    by (cases p) (auto simp: econn_def)
  from this(2) have "(x, y) \<in> Q"
  proof (induction rule: rtrancl_induct)
    case base
    show ?case by (rule assms(2))
  next
    case (step y z)
    from step.hyps(2) assms(1,3) have "(y, z) \<in> Q" by blast
    with step.IH show ?case by (rule assms(4))
  qed
  with p show "p \<in> Q" by simp
qed

text \<open>Adding one pair joins the two components it touches and nothing else.\<close>

lemma join_equiv:
  fixes a b :: 'a
  assumes s: "\<forall>x y. R x y \<longrightarrow> R y x" and t: "\<forall>x y z. R x y \<longrightarrow> R y z \<longrightarrow> R x z"
  defines "P \<equiv> \<lambda>x y. R x y \<or> R x a \<and> R b y \<or> R x b \<and> R a y"
  shows "P x y \<Longrightarrow> P y x" and "P x y \<Longrightarrow> P y z \<Longrightarrow> P x z"
proof -
  have sy: "\<And>x y. R x y \<Longrightarrow> R y x" using s by blast
  have tr: "\<And>x y z. R x y \<Longrightarrow> R y z \<Longrightarrow> R x z" using t by blast
  show "P x y \<Longrightarrow> P y x" unfolding P_def using sy by blast
  assume xy: "P x y" and yz: "P y z"
  from yz consider (d) "R y z" | (ab) "R y a" "R b z" | (ba) "R y b" "R a z"
    unfolding P_def by blast
  note yzc = this
  from xy consider (d) "R x y" | (ab) "R x a" "R b y" | (ba) "R x b" "R a y"
    unfolding P_def by blast
  then show "P x z"
  proof cases
    case d
    from yzc show ?thesis
    proof cases
      case d
      from tr [OF \<open>R x y\<close> d] show ?thesis unfolding P_def by simp
    next
      case ab
      from tr [OF \<open>R x y\<close> ab(1)] ab(2) show ?thesis unfolding P_def by simp
    next
      case ba
      from tr [OF \<open>R x y\<close> ba(1)] ba(2) show ?thesis unfolding P_def by simp
    qed
  next
    case ab
    note xab = this
    from yzc show ?thesis
    proof cases
      case d
      from tr [OF xab(2) d] xab(1) show ?thesis unfolding P_def by simp
    next
      case ab
      with xab show ?thesis unfolding P_def by simp
    next
      case ba
      from tr [OF xab(1) ba(2)] show ?thesis unfolding P_def by simp
    qed
  next
    case ba
    note xba = this
    from yzc show ?thesis
    proof cases
      case d
      from tr [OF xba(2) d] xba(1) show ?thesis unfolding P_def by simp
    next
      case ab
      from tr [OF xba(1) ab(2)] show ?thesis unfolding P_def by simp
    next
      case ba
      with xba show ?thesis unfolding P_def by simp
    qed
  qed
qed

lemma econn_insert:
  "(x, y) \<in> econn (insert (a, b) E) \<longleftrightarrow>
     (x, y) \<in> econn E \<or> (x, a) \<in> econn E \<and> (b, y) \<in> econn E
                      \<or> (x, b) \<in> econn E \<and> (a, y) \<in> econn E"
proof
  let ?R = "\<lambda>x y. (x, y) \<in> econn E"
  let ?P = "\<lambda>x y. ?R x y \<or> ?R x a \<and> ?R b y \<or> ?R x b \<and> ?R a y"
  have "\<forall>x y. ?R x y \<longrightarrow> ?R y x" using econn_sym [of _ _ E] by blast
  moreover have "\<forall>x y z. ?R x y \<longrightarrow> ?R y z \<longrightarrow> ?R x z" using econn_trans [of _ _ E] by blast
  ultimately have je: "\<And>x y. ?P x y \<Longrightarrow> ?P y x" "\<And>x y z. ?P x y \<Longrightarrow> ?P y z \<Longrightarrow> ?P x z"
    using join_equiv [of ?R _ _ a b] by blast+
  have "econn (insert (a, b) E) \<subseteq> {(x, y). ?P x y}"
  proof (rule econn_least)
    show "insert (a, b) E \<subseteq> {(x, y). ?P x y}" using econn_base [of _ _ E] by auto
  next
    fix x show "(x, x) \<in> {(x, y). ?P x y}" by simp
  next
    fix x y assume "(x, y) \<in> {(x, y). ?P x y}"
    then have "?P x y" by simp
    from je(1) [OF this] show "(y, x) \<in> {(x, y). ?P x y}" by simp
  next
    fix x y z assume "(x, y) \<in> {(x, y). ?P x y}" "(y, z) \<in> {(x, y). ?P x y}"
    then have "?P x y" "?P y z" by simp_all
    from je(2) [OF this] show "(x, z) \<in> {(x, y). ?P x y}" by simp
  qed
  then show "(x, y) \<in> econn (insert (a, b) E) \<Longrightarrow> ?P x y" by auto
next
  let ?E = "insert (a, b) E"
  have sub: "\<And>x y. (x, y) \<in> econn E \<Longrightarrow> (x, y) \<in> econn ?E"
    using econn_mono [of E ?E] by auto
  have ab: "(a, b) \<in> econn ?E" by (intro econn_base) simp
  have ba: "(b, a) \<in> econn ?E" using ab by (rule econn_sym)
  assume "(x, y) \<in> econn E \<or> (x, a) \<in> econn E \<and> (b, y) \<in> econn E
                      \<or> (x, b) \<in> econn E \<and> (a, y) \<in> econn E"
  then consider "(x, y) \<in> econn E" | "(x, a) \<in> econn E" "(b, y) \<in> econn E"
    | "(x, b) \<in> econn E" "(a, y) \<in> econn E" by blast
  then show "(x, y) \<in> econn ?E"
  proof cases
    case 1
    then show ?thesis by (rule sub)
  next
    case 2
    from econn_trans [OF econn_trans [OF sub [OF 2(1)] ab] sub [OF 2(2)]] show ?thesis .
  next
    case 3
    from econn_trans [OF econn_trans [OF sub [OF 3(1)] ba] sub [OF 3(2)]] show ?thesis .
  qed
qed

lemma econn_absorb:
  assumes ab: "(a, b) \<in> econn E"
  shows "econn (insert (a, b) E) = econn E"
proof (intro set_eqI iffI)
  fix p assume p: "p \<in> econn (insert (a, b) E)"
  obtain x y where xy: "p = (x, y)" by (cases p)
  from p xy have "(x, y) \<in> econn (insert (a, b) E)" by simp
  then consider "(x, y) \<in> econn E" | "(x, a) \<in> econn E" "(b, y) \<in> econn E"
    | "(x, b) \<in> econn E" "(a, y) \<in> econn E" unfolding econn_insert by blast
  then have "(x, y) \<in> econn E"
  proof cases
    case 1
    then show ?thesis .
  next
    case 2
    from econn_trans [OF econn_trans [OF 2(1) ab] 2(2)] show ?thesis .
  next
    case 3
    from econn_trans [OF econn_trans [OF 3(1) econn_sym [OF ab]] 3(2)] show ?thesis .
  qed
  with xy show "p \<in> econn E" by simp
next
  fix p assume "p \<in> econn E"
  then show "p \<in> econn (insert (a, b) E)" using econn_mono [of E "insert (a, b) E"] by auto
qed

section \<open>Union-find\<close>

text \<open>
  \<open>root_of s x r\<close>: following the parent pointers of \<open>s\<close> from \<open>x\<close> ends in \<open>r\<close>.  An id with
  no entry counts as its own root, which is what \<open>find\<close> makes of it.
\<close>

inductive root_of :: "UnionFind \<Rightarrow> string \<Rightarrow> string \<Rightarrow> bool" for s where
  fresh: "parent s x = None \<Longrightarrow> root_of s x x"
| self: "parent s x = Some x \<Longrightarrow> root_of s x x"
| step: "parent s x = Some p \<Longrightarrow> p \<noteq> x \<Longrightarrow> root_of s p r \<Longrightarrow> root_of s x r"

lemma root_of_unique: "root_of s x r \<Longrightarrow> root_of s x r' \<Longrightarrow> r = r'"
proof (induction arbitrary: r' rule: root_of.induct)
  case (fresh x)
  from fresh.prems fresh.hyps show ?case by (cases rule: root_of.cases) auto
next
  case (self x)
  from self.prems self.hyps show ?case by (cases rule: root_of.cases) auto
next
  case (step x p r)
  from step.prems step.hyps(1,2) have "root_of s p r'" by (cases rule: root_of.cases) auto
  then show ?case by (rule step.IH)
qed

lemma root_of_root: "root_of s x r \<Longrightarrow> parent s r = None \<or> parent s r = Some r"
  by (induction rule: root_of.induct) auto

lemma root_of_idem: "root_of s x r \<Longrightarrow> root_of s r r"
  using root_of_root [of s x r] by (auto intro: root_of.fresh root_of.self)

lemma root_of_parent_cong:
  assumes "parent s' = parent s"
  shows "root_of s' x r \<longleftrightarrow> root_of s x r"
proof
  show "root_of s' x r \<Longrightarrow> root_of s x r"
    by (induction rule: root_of.induct) (auto simp: assms intro: root_of.intros)
  show "root_of s x r \<Longrightarrow> root_of s' x r"
    by (induction rule: root_of.induct) (auto simp: assms [symmetric] intro: root_of.intros)
qed

text \<open>Registering a new id as its own parent (the lazy initialisation in \<open>find\<close>).\<close>

lemma root_of_register:
  assumes "parent s x = None" and "parent s' = (parent s)(x \<mapsto> x)"
  shows "root_of s' y r \<longleftrightarrow> root_of s y r"
proof
  show "root_of s' y r \<Longrightarrow> root_of s y r"
  proof (induction rule: root_of.induct)
    case (fresh y)
    then show ?case using assms by (auto intro: root_of.fresh split: if_splits)
  next
    case (self y)
    then show ?case using assms by (cases "y = x") (auto intro: root_of.fresh root_of.self)
  next
    case (step y p r)
    then have "y \<noteq> x" using assms by auto
    with step assms show ?case by (auto intro: root_of.step)
  qed
  show "root_of s y r \<Longrightarrow> root_of s' y r"
  proof (induction rule: root_of.induct)
    case (fresh y)
    then show ?case using assms by (cases "y = x") (auto intro: root_of.fresh root_of.self)
  next
    case (self y)
    then show ?case using assms by (auto intro: root_of.self)
  next
    case (step y p r)
    then have "y \<noteq> x" using assms by auto
    with step assms show ?case by (auto intro: root_of.step)
  qed
qed

text \<open>Path compression: pointing a registered id straight at its root.\<close>

lemma root_of_compress:
  assumes xr: "root_of s x r" and reg: "parent s x \<noteq> None"
    and s': "parent s' = (parent s)(x \<mapsto> r)"
  shows "root_of s' y r' \<longleftrightarrow> root_of s y r'"
proof
  have rr: "parent s r = None \<or> parent s r = Some r" using xr by (rule root_of_root)
  have root': "r \<noteq> x \<Longrightarrow> root_of s' r r"
    using rr s' by (auto intro: root_of.fresh root_of.self)
  show "root_of s y r' \<Longrightarrow> root_of s' y r'"
  proof (induction rule: root_of.induct)
    case (fresh y)
    with reg have "y \<noteq> x" by auto
    with fresh s' show ?case by (auto intro: root_of.fresh)
  next
    case (self y)
    show ?case
    proof (cases "y = x")
      case True
      with self have "root_of s x x" by (auto intro: root_of.self)
      with xr have "r = x" by (rule root_of_unique)
      with True s' show ?thesis by (auto intro: root_of.self)
    next
      case False
      with self s' show ?thesis by (auto intro: root_of.self)
    qed
  next
    case (step y p r')
    show ?case
    proof (cases "y = x")
      case True
      from step.hyps have "root_of s y r'" by (auto intro: root_of.step)
      with True xr have r': "r' = r" using root_of_unique by blast
      have "r \<noteq> x"
      proof
        assume "r = x"
        with rr step.hyps(1,2) True show False by auto
      qed
      with root' s' True r' show ?thesis by (auto intro: root_of.step)
    next
      case False
      with step s' show ?thesis by (auto intro: root_of.step)
    qed
  qed
  show "root_of s' y r' \<Longrightarrow> root_of s y r'"
  proof (induction rule: root_of.induct)
    case (fresh y)
    with s' have "y \<noteq> x" "parent s y = None" by (auto split: if_splits)
    then show ?case by (auto intro: root_of.fresh)
  next
    case (self y)
    show ?case
    proof (cases "y = x")
      case True
      with self s' have "r = x" by auto
      with xr True show ?thesis by simp
    next
      case False
      with self s' show ?thesis by (auto intro: root_of.self)
    qed
  next
    case (step y p r')
    show ?case
    proof (cases "y = x")
      case True
      with step.hyps(1) s' have "p = r" by auto
      with step.IH have "root_of s r r'" by simp
      moreover have "root_of s r r" using xr by (rule root_of_idem)
      ultimately have "r' = r" using root_of_unique by blast
      with xr True show ?thesis by simp
    next
      case False
      with step s' show ?thesis by (auto intro: root_of.step)
    qed
  qed
qed

text \<open>\<open>find\<close> returns the root, registers the id and keeps every root.\<close>

lemma uf_find_correct:
  "root_of s x r \<Longrightarrow>
     \<exists>s'. uf_find s x = Some (r, s') \<and> (\<forall>y r'. root_of s' y r' \<longleftrightarrow> root_of s y r') \<and>
          (\<forall>y. parent s y \<noteq> None \<longrightarrow> parent s' y \<noteq> None) \<and> parent s' x \<noteq> None"
proof (induction rule: root_of.induct)
  case (fresh x)
  let ?s1 = "s\<lparr>parent := (parent s)(x \<mapsto> x), rank := (rank s)(x \<mapsto> 0)\<rparr>"
  have "uf_find s x = Some (x, ?s1)"
    using fresh by (subst uf_find.simps) (simp add: Let_def)
  moreover have "\<forall>y r'. root_of ?s1 y r' \<longleftrightarrow> root_of s y r'"
    using root_of_register [OF fresh, of ?s1] by simp
  ultimately show ?case by (intro exI [of _ ?s1]) simp
next
  case (self x)
  have "uf_find s x = Some (x, s)"
    using self by (subst uf_find.simps) (simp add: Let_def)
  with self show ?case by (intro exI [of _ s]) simp
next
  case (step x p r)
  from step.IH obtain s2 where s2: "uf_find s p = Some (r, s2)"
    "\<And>y r'. root_of s2 y r' \<longleftrightarrow> root_of s y r'"
    "\<And>y. parent s y \<noteq> None \<Longrightarrow> parent s2 y \<noteq> None" by blast
  let ?s3 = "s2\<lparr>parent := (parent s2)(x \<mapsto> r)\<rparr>"
  have "uf_find s x = Some (r, ?s3)"
    using step.hyps(1,2) s2(1) by (subst uf_find.simps) (simp add: Let_def)
  moreover have "root_of s x r" using step.hyps by (rule root_of.step)
  then have "root_of s2 x r" using s2(2) by simp
  moreover have "parent s2 x \<noteq> None" using step.hyps(1) s2(3) by simp
  ultimately have "\<forall>y r'. root_of ?s3 y r' \<longleftrightarrow> root_of s y r'"
    using root_of_compress [of s2 x r ?s3] s2(2) by simp
  moreover have "\<forall>y. parent s y \<noteq> None \<longrightarrow> parent ?s3 y \<noteq> None" using s2(3) by simp
  ultimately show ?case
    using \<open>uf_find s x = Some (r, ?s3)\<close> by (intro exI [of _ ?s3]) simp
qed

text \<open>Hanging one root under another root.\<close>

lemma root_of_link:
  assumes a: "root_of s a a" and b: "root_of s b b" and ne: "a \<noteq> b"
    and s': "parent s' = (parent s)(b \<mapsto> a)"
  shows "root_of s y r \<Longrightarrow> root_of s' y (if r = b then a else r)"
proof (induction rule: root_of.induct)
  have ra: "parent s a = None \<or> parent s a = Some a" using a by (rule root_of_root)
  have rb: "parent s b = None \<or> parent s b = Some b" using b by (rule root_of_root)
  have a': "root_of s' a a" using ra ne s' by (auto intro: root_of.fresh root_of.self)
  have b': "root_of s' b a" using ne s' a' by (auto intro: root_of.step)
  {
    case (fresh y)
    show ?case
    proof (cases "y = b")
      case True
      with b' show ?thesis by simp
    next
      case False
      with fresh s' show ?thesis by (auto intro: root_of.fresh)
    qed
  next
    case (self y)
    show ?case
    proof (cases "y = b")
      case True
      with b' show ?thesis by simp
    next
      case False
      with self s' show ?thesis by (auto intro: root_of.self)
    qed
  next
    case (step y p r)
    from step.hyps(1,2) rb have "y \<noteq> b" by auto
    with step.hyps(1) s' have py: "parent s' y = Some p" by simp
    from py step.hyps(2) step.IH show ?case by (rule root_of.step)
  }
qed

text \<open>
  The structure keeps track of a set \<open>E\<close> of joined pairs: every id has a root, and two ids
  have the same root exactly when \<open>E\<close> connects them.
\<close>

definition uf_tracks :: "UnionFind \<Rightarrow> (string \<times> string) set \<Rightarrow> bool" where
  "uf_tracks s E =
     ((\<forall>x. \<exists>r. root_of s x r) \<and>
      (\<forall>x y rx ry. root_of s x rx \<longrightarrow> root_of s y ry \<longrightarrow> (rx = ry \<longleftrightarrow> (x, y) \<in> econn E)))"

lemma uf_tracks_root: "uf_tracks s E \<Longrightarrow> \<exists>r. root_of s x r"
  by (simp add: uf_tracks_def)

lemma uf_tracks_same:
  "uf_tracks s E \<Longrightarrow> root_of s x rx \<Longrightarrow> root_of s y ry \<Longrightarrow> rx = ry \<longleftrightarrow> (x, y) \<in> econn E"
  unfolding uf_tracks_def by blast

lemma uf_tracks_cong:
  "uf_tracks s E \<Longrightarrow> (\<And>y r. root_of s' y r \<longleftrightarrow> root_of s y r) \<Longrightarrow> uf_tracks s' E"
  by (simp add: uf_tracks_def)

lemma uf_new_parent: "parent (uf_new nodes) x = (if x \<in> set nodes then Some x else None)"
proof -
  have "parent (fold (\<lambda>node s. s\<lparr>parent := (parent s)(node \<mapsto> node),
                                   rank := (rank s)(node \<mapsto> 0)\<rparr>) nodes s0) x
          = (if x \<in> set nodes then Some x else parent s0 x)" for s0
    by (induction nodes arbitrary: s0) auto
  from this [of "\<lparr>parent = Map.empty, rank = Map.empty\<rparr>"] show ?thesis
    by (simp add: uf_new_def)
qed

lemma econn_empty: "(x, y) \<in> econn {} \<longleftrightarrow> x = y"
  by (simp add: econn_def)

lemma uf_new_tracks: "uf_tracks (uf_new nodes) {}"
proof -
  have root: "root_of (uf_new nodes) x x" for x
    using uf_new_parent [of nodes x] by (auto intro: root_of.fresh root_of.self split: if_splits)
  show ?thesis
    unfolding uf_tracks_def econn_empty
  proof (intro conjI allI impI)
    fix x show "\<exists>r. root_of (uf_new nodes) x r" using root by blast
  next
    fix x y rx ry assume "root_of (uf_new nodes) x rx" "root_of (uf_new nodes) y ry"
    with root [of x] root [of y] have "rx = x" "ry = y" using root_of_unique by blast+
    then show "(rx = ry) = (x = y)" by simp
  qed
qed

lemma uf_find_tracks:
  assumes "uf_tracks s E"
  shows "\<exists>r s'. uf_find s x = Some (r, s') \<and> root_of s x r \<and> root_of s' x r \<and>
           uf_tracks s' E \<and> (\<forall>y r'. root_of s' y r' \<longleftrightarrow> root_of s y r')"
proof -
  from uf_tracks_root [OF assms] obtain r where r: "root_of s x r" by blast
  from uf_find_correct [OF r] obtain s' where s': "uf_find s x = Some (r, s')"
    "\<And>y r'. root_of s' y r' \<longleftrightarrow> root_of s y r'" by blast
  from uf_tracks_cong [OF assms s'(2)] r s' show ?thesis by blast
qed

text \<open>\<open>union\<close> answers whether the two ids were apart, and joins them.\<close>

lemma uf_union_tracks:
  assumes "uf_tracks s E"
  shows "\<exists>res s'. uf_union s a b = Some (res, s') \<and> (res \<longleftrightarrow> (a, b) \<notin> econn E) \<and>
           uf_tracks s' (insert (a, b) E)"
proof -
  from uf_find_tracks [OF assms, of a] obtain ra s1 where
    f1: "uf_find s a = Some (ra, s1)" "root_of s a ra" "uf_tracks s1 E"
      "\<And>y r'. root_of s1 y r' \<longleftrightarrow> root_of s y r'" by blast
  from uf_find_tracks [OF f1(3), of b] obtain rb s2 where
    f2: "uf_find s1 b = Some (rb, s2)" "root_of s1 b rb" "uf_tracks s2 E"
      "\<And>y r'. root_of s2 y r' \<longleftrightarrow> root_of s1 y r'" by blast
  have ra2: "root_of s2 a ra" and rb2: "root_of s2 b rb"
    using f1(2,4) f2(2,4) by simp_all
  have conn: "ra = rb \<longleftrightarrow> (a, b) \<in> econn E"
    using uf_tracks_same [OF f2(3) ra2 rb2] .
  show ?thesis
  proof (cases "ra = rb")
    case True
    have "uf_union s a b = Some (False, s2)"
      using f1(1) f2(1) True by (simp add: uf_union_def)
    moreover have "(a, b) \<in> econn E" using conn True by simp
    from econn_absorb [OF this] f2(3) have "uf_tracks s2 (insert (a, b) E)"
      by (simp add: uf_tracks_def)
    ultimately show ?thesis using conn True by blast
  next
    case False
    have rra: "root_of s2 ra ra" and rrb: "root_of s2 rb rb"
      using ra2 rb2 by (auto intro: root_of_idem)
    text \<open>Whichever root is hung under the other, the two components become one.\<close>
    have merged: "uf_tracks s' (insert (a, b) E)"
      if lk: "\<And>y r. root_of s2 y r \<Longrightarrow> root_of s' y (if r = q then p else r)"
        and pq: "p = ra \<and> q = rb \<or> p = rb \<and> q = ra" for s' p q
      unfolding uf_tracks_def
    proof (intro conjI allI impI)
      fix x
      from uf_tracks_root [OF f2(3)] obtain r where "root_of s2 x r" by blast
      from lk [OF this] show "\<exists>r. root_of s' x r" by blast
    next
      fix x y rx' ry' assume x': "root_of s' x rx'" and y': "root_of s' y ry'"
      from uf_tracks_root [OF f2(3)] obtain rx ry where r: "root_of s2 x rx" "root_of s2 y ry"
        by blast
      have rx': "rx' = (if rx = q then p else rx)" using root_of_unique [OF x' lk [OF r(1)]] .
      have ry': "ry' = (if ry = q then p else ry)" using root_of_unique [OF y' lk [OF r(2)]] .
      have xy: "rx = ry \<longleftrightarrow> (x, y) \<in> econn E" using uf_tracks_same [OF f2(3) r] .
      have xa: "rx = ra \<longleftrightarrow> (x, a) \<in> econn E" using uf_tracks_same [OF f2(3) r(1) ra2] .
      have xb: "rx = rb \<longleftrightarrow> (x, b) \<in> econn E" using uf_tracks_same [OF f2(3) r(1) rb2] .
      have ay: "ra = ry \<longleftrightarrow> (a, y) \<in> econn E" using uf_tracks_same [OF f2(3) ra2 r(2)] .
      have by': "rb = ry \<longleftrightarrow> (b, y) \<in> econn E" using uf_tracks_same [OF f2(3) rb2 r(2)] .
      have "(x, y) \<in> econn (insert (a, b) E) \<longleftrightarrow>
              rx = ry \<or> rx = ra \<and> rb = ry \<or> rx = rb \<and> ra = ry"
        unfolding econn_insert xy xa xb ay by' ..
      also have "\<dots> \<longleftrightarrow> rx' = ry'"
        using pq False unfolding rx' ry' by auto
      finally show "(rx' = ry') = ((x, y) \<in> econn (insert (a, b) E))" by simp
    qed
    let ?A = "s2\<lparr>parent := (parent s2)(rb \<mapsto> ra)\<rparr>"
    let ?B = "s2\<lparr>parent := (parent s2)(ra \<mapsto> rb)\<rparr>"
    let ?C = "s2\<lparr>parent := (parent s2)(rb \<mapsto> ra),
                   rank := (case rank s2 ra of Some r \<Rightarrow> (rank s2)(ra \<mapsto> Suc r)
                                             | None \<Rightarrow> rank s2)\<rparr>"
    have tA: "uf_tracks ?A (insert (a, b) E)"
      using root_of_link [OF rra rrb False, of ?A] by (intro merged [of _ rb ra]) simp_all
    have tB: "uf_tracks ?B (insert (a, b) E)"
      using root_of_link [OF rrb rra False [symmetric], of ?B] by (intro merged [of _ ra rb]) simp_all
    have tC: "uf_tracks ?C (insert (a, b) E)"
      using root_of_link [OF rra rrb False, of ?C] by (intro merged [of _ rb ra]) simp_all
    have eq: "uf_union s a b =
                (if rank_gt (rank s2 ra) (rank s2 rb) then Some (True, ?A)
                 else if rank_gt (rank s2 rb) (rank s2 ra) then Some (True, ?B)
                 else Some (True, ?C))"
      using f1(1) f2(1) False by (simp add: uf_union_def)
    show ?thesis
    proof (cases "rank_gt (rank s2 ra) (rank s2 rb)")
      case True
      with eq have "uf_union s a b = Some (True, ?A)" by simp
      with tA conn False show ?thesis by blast
    next
      case nab: False
      show ?thesis
      proof (cases "rank_gt (rank s2 rb) (rank s2 ra)")
        case True
        with eq nab have "uf_union s a b = Some (True, ?B)" by simp
        with tB conn False show ?thesis by blast
      next
        case False
        with eq nab have "uf_union s a b = Some (True, ?C)" by simp
        with tC conn \<open>ra \<noteq> rb\<close> show ?thesis by blast
      qed
    qed
  qed
qed

subsection \<open>Sequences of operations\<close>










section \<open>The spanning-forest loop\<close>

text \<open>The pair of ids an edge joins.\<close>

definition pr :: "'w Edge \<Rightarrow> string \<times> string" where
  "pr e = (edge_u e, edge_v e)"

text \<open>
  The edges the loop keeps, when the pairs \<open>E\<close> are already joined: an edge is kept when
  its ends are not yet connected.
\<close>

fun accepted :: "(string \<times> string) set \<Rightarrow> 'w Edge list \<Rightarrow> 'w Edge list" where
  "accepted E [] = []"
| "accepted E (e # es) =
     (if pr e \<in> econn E then accepted E es else e # accepted (insert (pr e) E) es)"

lemma uf_tracks_econn: "uf_tracks s E \<Longrightarrow> econn E' = econn E \<Longrightarrow> uf_tracks s E'"
  by (simp add: uf_tracks_def)

lemma kruskal_loop_accepted:
  fixes tw :: "'w::monoid_add"
  assumes "uf_tracks uf E"
  shows "\<exists>uf'. kruskal_loop es (uf, mst, tw) =
           Some (uf', mst @ accepted E es, tw + sum_list (map weight (accepted E es)))"
  using assms
proof (induction es arbitrary: uf E mst tw)
  case Nil
  then show ?case by simp
next
  case (Cons e es)
  from uf_union_tracks [OF Cons.prems, of "edge_u e" "edge_v e"] obtain res s1 where
    u: "uf_union uf (edge_u e) (edge_v e) = Some (res, s1)"
      "res \<longleftrightarrow> pr e \<notin> econn E" "uf_tracks s1 (insert (pr e) E)"
    by (auto simp: pr_def)
  show ?case
  proof (cases res)
    case True
    from Cons.IH [OF u(3), of "mst @ [e]" "tw + weight e"] obtain uf' where
      "kruskal_loop es (s1, mst @ [e], tw + weight e) =
         Some (uf', (mst @ [e]) @ accepted (insert (pr e) E) es,
               (tw + weight e) + sum_list (map weight (accepted (insert (pr e) E) es)))" ..
    with u(1,2) True show ?thesis by (simp add: add.assoc)
  next
    case False
    with u(2) have c: "pr e \<in> econn E" by simp
    then have "econn E = econn (insert (pr e) E)"
      using econn_absorb [of "fst (pr e)" "snd (pr e)" E] by simp
    from uf_tracks_econn [OF u(3) this] have "uf_tracks s1 E" .
    from Cons.IH [OF this, of mst tw] obtain uf' where
      "kruskal_loop es (s1, mst, tw) =
         Some (uf', mst @ accepted E es, tw + sum_list (map weight (accepted E es)))" ..
    with u(1) False c show ?thesis by simp
  qed
qed

lemma subseq_accepted: "subseq (accepted E es) es"
  by (induction es arbitrary: E) auto

lemma set_accepted: "set (accepted E es) \<subseteq> set es"
  by (induction es arbitrary: E) auto

lemma kruskal_eq:
  fixes h :: "'w::{linorder,monoid_add} heap"
  shows "kruskal h nodes edges =
      Some (\<lparr>mstEdges = accepted {} (sort_key weight (edgeArrays h ! edges)),
             totalWeight = sum_list (map weight (accepted {} (sort_key weight (edgeArrays h ! edges))))\<rparr>,
            h\<lparr>edgeArrays := edgeArrays h @ [sort_key weight (edgeArrays h ! edges)]\<rparr>)"
proof -
  let ?se = "sort_key weight (edgeArrays h ! edges)"
  from kruskal_loop_accepted [OF uf_new_tracks, of ?se "strArrays h ! nodes" "[]" 0]
  obtain uf' where
    "kruskal_loop ?se (uf_new (strArrays h ! nodes), [], 0) =
       Some (uf', accepted {} ?se, sum_list (map weight (accepted {} ?se)))" by auto
  then show ?thesis
    by (simp add: kruskal_def spread_copy_def sort_in_place_def)
qed

text \<open>
  C10.  A call of \<open>kruskal\<close> on the arrays at two valid addresses returns; afterwards every
  array of ids is as before, every array of edges the caller could reach is as before (the
  only change to the heap is one new array, the sorted copy), and \<open>mstEdges\<close> is a
  subsequence of the input edges reordered by non-decreasing weight.
\<close>

theorem kruskal_frame:
  fixes h :: "'w::{linorder,monoid_add} heap"
  assumes "nodes < length (strArrays h)" and "edges < length (edgeArrays h)"
  shows "\<exists>out h'. kruskal h nodes edges = Some (out, h') \<and>
           strArrays h' = strArrays h \<and>
           take (length (edgeArrays h)) (edgeArrays h') = edgeArrays h \<and>
           strArrays h' ! nodes = strArrays h ! nodes \<and>
           edgeArrays h' ! edges = edgeArrays h ! edges \<and>
           (let sortedEdges = sort_key weight (edgeArrays h ! edges)
            in mset sortedEdges = mset (edgeArrays h ! edges) \<and>
               sorted (map weight sortedEdges) \<and>
               subseq (mstEdges out) sortedEdges)"
  using assms subseq_accepted [of "{}" "sort_key weight (edgeArrays h ! edges)"]
  by (simp add: kruskal_eq nth_append)

theorem kruskal_frame_witness:
  "(0::nat) < length (strArrays \<lparr>strArrays = [[''A'', ''B'', ''C'']],
       edgeArrays = [[\<lparr>edge_u = ''A'', edge_v = ''C'', weight = 3::int\<rparr>,
                      \<lparr>edge_u = ''B'', edge_v = ''C'', weight = 2\<rparr>,
                      \<lparr>edge_u = ''A'', edge_v = ''B'', weight = 1\<rparr>]]\<rparr>) \<and>
   (\<exists>out h'. kruskal \<lparr>strArrays = [[''A'', ''B'', ''C'']],
       edgeArrays = [[\<lparr>edge_u = ''A'', edge_v = ''C'', weight = 3::int\<rparr>,
                      \<lparr>edge_u = ''B'', edge_v = ''C'', weight = 2\<rparr>,
                      \<lparr>edge_u = ''A'', edge_v = ''B'', weight = 1\<rparr>]]\<rparr> 0 0 = Some (out, h') \<and>
      strArrays h' = [[''A'', ''B'', ''C'']] \<and>
      edgeArrays h' ! 0 = [\<lparr>edge_u = ''A'', edge_v = ''C'', weight = 3\<rparr>,
                           \<lparr>edge_u = ''B'', edge_v = ''C'', weight = 2\<rparr>,
                           \<lparr>edge_u = ''A'', edge_v = ''B'', weight = 1\<rparr>] \<and>
      subseq (mstEdges out) [\<lparr>edge_u = ''A'', edge_v = ''B'', weight = 1\<rparr>,
                             \<lparr>edge_u = ''B'', edge_v = ''C'', weight = 2\<rparr>,
                             \<lparr>edge_u = ''A'', edge_v = ''C'', weight = 3\<rparr>])"
  using kruskal_frame [of 0 "\<lparr>strArrays = [[''A'', ''B'', ''C'']],
       edgeArrays = [[\<lparr>edge_u = ''A'', edge_v = ''C'', weight = 3::int\<rparr>,
                      \<lparr>edge_u = ''B'', edge_v = ''C'', weight = 2\<rparr>,
                      \<lparr>edge_u = ''A'', edge_v = ''B'', weight = 1\<rparr>]]\<rparr>" 0]
  by simp blast

end
